theory Spec2Isabelle
  imports Main "HOL-Library.Signed_Division"
begin

unbundle bit_operations_syntax

section \<open>The node type\<close>

text \<open>
  The repository holds two programs with the same van Emde Boas tree:
  \<^verbatim>\<open>VanEmdeBoasTree.cpp\<close> splits a key with shifts and masks (the universe is a power
  of two, the constructor takes the number of bits), the second file splits it with
  integer division by \<open>B = sqrt U\<close> (any universe, the constructor takes its size).
  The \<^verbatim>\<open>struct V\<close> is the same in both. A node owns its summary and its blocks
  exclusively, so the pointer structure is a tree and is modelled as a datatype:
  \<^verbatim>\<open>summary\<close> is \<open>None\<close> for \<^verbatim>\<open>nullptr\<close>, \<^verbatim>\<open>block\<close> is the vector.
  The C++ \<^verbatim>\<open>int\<close> is modelled as \<open>int\<close>; the theorems carry the bounds on the
  constructor's argument under which no operation of the source leaves the range of a
  32-bit \<^verbatim>\<open>int\<close>.
\<close>

datatype V = V (U: int) (B: int) (min_V: int) (max_V: int) (small: int)
  (summary: "V option") (block: "V list")

definition SMALL :: int where
  "SMALL = 32"

definition INT_MAX :: int where
  "INT_MAX = 2147483647"

text \<open>The two files differ in \<^verbatim>\<open>index\<close>, \<^verbatim>\<open>high\<close>, \<^verbatim>\<open>low\<close> and the constructor only.\<close>

datatype policy = Generic | Pow2

definition index :: "policy \<Rightarrow> int \<Rightarrow> int \<Rightarrow> int \<Rightarrow> int" where
  "index p b i j = (case p of Generic \<Rightarrow> i * b + j | Pow2 \<Rightarrow> push_bit (nat b) i OR j)"

definition high :: "policy \<Rightarrow> int \<Rightarrow> int \<Rightarrow> int" where
  "high p b x = (case p of Generic \<Rightarrow> x sdiv b | Pow2 \<Rightarrow> drop_bit (nat b) x)"

definition low :: "policy \<Rightarrow> int \<Rightarrow> int \<Rightarrow> int" where
  "low p b x = (case p of Generic \<Rightarrow> x smod b | Pow2 \<Rightarrow> x AND (push_bit (nat b) 1 - 1))"

section \<open>Construction\<close>

text \<open>
  \<^verbatim>\<open>V::V(int bits)\<close> of \<^verbatim>\<open>VanEmdeBoasTree.cpp\<close>. The \<^verbatim>\<open>for\<close> loop stores a
  freshly built \<^verbatim>\<open>V(B)\<close> in each of the \<^verbatim>\<open>1 << B2\<close> slots.
\<close>

lemma pow2_ge_SMALL: "SMALL \<le> push_bit (nat bits) (1::int) \<Longrightarrow> 5 \<le> bits"
proof (rule ccontr)
  assume a: "SMALL \<le> push_bit (nat bits) (1::int)" and "\<not> 5 \<le> bits"
  then have "nat bits \<le> 4" by simp
  then have "(2::int) ^ nat bits \<le> 2 ^ 4" by (rule power_increasing) simp
  with a show False by (simp add: SMALL_def push_bit_eq_mult)
qed

function V_pow2 :: "int \<Rightarrow> V" where
  "V_pow2 bits =
     (let u = push_bit (nat bits) 1; b = drop_bit 1 bits in
      if u \<ge> SMALL then
        let b2 = drop_bit 1 (bits + 1) in
        V u b (-1) (-1) 0 (Some (V_pow2 b2)) (replicate (nat (push_bit (nat b2) 1)) (V_pow2 b))
      else V u b (-1) (-1) 0 None [])"
  by pat_completeness auto
termination
proof (relation "measure nat")
  show "wf (measure nat)" by simp
next
  fix bits :: int and x xa xb
  assume "x = push_bit (nat bits) (1::int)" "xa = drop_bit (1::nat) bits" "SMALL \<le> x"
    "xb = drop_bit (1::nat) (bits + 1)"
  then have "5 \<le> bits" using pow2_ge_SMALL by simp
  then show "(xb, bits) \<in> measure nat"
    using \<open>xb = drop_bit (1::nat) (bits + 1)\<close> by (simp add: drop_bit_eq_div)
next
  fix bits :: int and x xa xb
  assume "x = push_bit (nat bits) (1::int)" "xa = drop_bit (1::nat) bits" "SMALL \<le> x"
    "xb = drop_bit (1::nat) (bits + 1)"
  then have "5 \<le> bits" using pow2_ge_SMALL by simp
  then show "(xa, bits) \<in> measure nat"
    using \<open>xa = drop_bit (1::nat) bits\<close> by (simp add: drop_bit_eq_div)
qed

declare V_pow2.simps [simp del]


text \<open>
  \<^verbatim>\<open>V::V(int size)\<close> of the second file. \<^verbatim>\<open>B(sqrt(U))\<close> converts the
  \<^verbatim>\<open>double\<close> square root to \<^verbatim>\<open>int\<close> by truncation; for a non-negative
  32-bit \<^verbatim>\<open>int\<close> the correctly rounded square root truncates to the integer square
  root, which \<open>isqrt\<close> computes by search.
\<close>

primrec sqrt_upto :: "nat \<Rightarrow> nat \<Rightarrow> nat" where
  "sqrt_upto n 0 = 0"
| "sqrt_upto n (Suc k) = (if Suc k * Suc k \<le> n then Suc k else sqrt_upto n k)"

definition isqrt :: "int \<Rightarrow> int" where
  "isqrt u = int (sqrt_upto (nat u) (nat u))"

text \<open>
  \<^verbatim>\<open>while (blocks * B < U) ++blocks;\<close> does not end when \<open>B \<le> 0\<close>, so the loop
  is a partial function and \<open>None\<close> stands for not returning.
\<close>

partial_function (option) count_blocks :: "int \<Rightarrow> int \<Rightarrow> int \<Rightarrow> int option" where
  "count_blocks u b blocks =
     (if blocks * b < u then count_blocks u b (blocks + 1) else Some blocks)"

declare count_blocks.simps [code]

lemma count_blocks_eq:
  "0 < b \<Longrightarrow> count_blocks u b blocks = Some (max blocks ((u + b - 1) div b))"
proof (induction "nat (u - blocks * b)" arbitrary: blocks rule: less_induct)
  case less
  show ?case
  proof (cases "blocks * b < u")
    case True
    have "nat (u - (blocks + 1) * b) < nat (u - blocks * b)"
      using True less.prems by (simp add: algebra_simps)
    then have "count_blocks u b (blocks + 1) = Some (max (blocks + 1) ((u + b - 1) div b))"
      using less.hyps less.prems by blast
    moreover have "(blocks + 1) * b \<le> u + b - 1"
      using True by (simp add: algebra_simps)
    then have "((blocks + 1) * b) div b \<le> (u + b - 1) div b"
      by (rule zdiv_mono1) (use less.prems in simp)
    then have "blocks + 1 \<le> (u + b - 1) div b"
      using less.prems by simp
    ultimately show ?thesis
      using True by (subst count_blocks.simps) simp
  next
    case False
    then have "u + b - 1 \<le> blocks * b + (b - 1)" by simp
    then have "(u + b - 1) div b \<le> (blocks * b + (b - 1)) div b"
      by (rule zdiv_mono1) (use less.prems in simp)
    also have "(blocks * b + (b - 1)) div b = blocks"
      using less.prems by simp
    finally show ?thesis
      using False by (subst count_blocks.simps) simp
  qed
qed

lemma sqrt_upto_le: "sqrt_upto n k \<le> k"
  by (induction k) auto

lemma sqrt_upto_sq: "sqrt_upto n k * sqrt_upto n k \<le> n"
  by (induction k) auto

lemma sqrt_upto_max: "j \<le> k \<Longrightarrow> j * j \<le> n \<Longrightarrow> j \<le> sqrt_upto n k"
proof (induction k)
  case 0
  then show ?case by simp
next
  case (Suc k)
  then show ?case by (cases "j = Suc k") auto
qed

lemma isqrt_nonneg: "0 \<le> isqrt u"
  by (simp add: isqrt_def)

lemma isqrt_sq: "0 \<le> u \<Longrightarrow> isqrt u * isqrt u \<le> u"
proof -
  assume "0 \<le> u"
  have "int (sqrt_upto (nat u) (nat u) * sqrt_upto (nat u) (nat u)) \<le> int (nat u)"
    using sqrt_upto_sq [of "nat u" "nat u"] by (simp only: of_nat_le_iff)
  then show ?thesis using \<open>0 \<le> u\<close> by (simp add: isqrt_def)
qed

lemma isqrt_max: "0 \<le> j \<Longrightarrow> j * j \<le> u \<Longrightarrow> j \<le> isqrt u"
proof -
  assume j: "0 \<le> j" "j * j \<le> u"
  then have "0 \<le> u" by (meson order_trans zero_le_square)
  have "nat j * nat j \<le> nat u"
    using j by (metis nat_mono nat_mult_distrib)
  moreover have "nat j \<le> nat u"
  proof (cases "j = 0")
    case False
    then have "1 \<le> j" using j by simp
    then have "j * 1 \<le> j * j" using j by (intro mult_left_mono) auto
    then show ?thesis using j by simp
  qed simp
  ultimately have "nat j \<le> sqrt_upto (nat u) (nat u)" by (rule sqrt_upto_max [rotated])
  then show ?thesis using j by (simp add: isqrt_def)
qed

lemma isqrt_upper: "0 \<le> u \<Longrightarrow> u < (isqrt u + 1) * (isqrt u + 1)"
proof (rule ccontr)
  assume "0 \<le> u" and "\<not> u < (isqrt u + 1) * (isqrt u + 1)"
  then have "isqrt u + 1 \<le> isqrt u"
    using isqrt_nonneg [of u] by (intro isqrt_max) auto
  then show False by simp
qed

lemma isqrt_ge5: "SMALL \<le> u \<Longrightarrow> 5 \<le> isqrt u"
  by (rule isqrt_max) (simp_all add: SMALL_def)

lemma isqrt_less: "SMALL \<le> u \<Longrightarrow> isqrt u < u"
proof -
  assume a: "SMALL \<le> u"
  then have "5 \<le> isqrt u" by (rule isqrt_ge5)
  then have "isqrt u * 1 < isqrt u * isqrt u"
    by (intro mult_strict_left_mono) auto
  moreover have "isqrt u * isqrt u \<le> u"
    using a by (intro isqrt_sq) (simp add: SMALL_def)
  ultimately show ?thesis by simp
qed

lemma blocks_bounds:
  assumes "SMALL \<le> u" and "count_blocks u (isqrt u) (isqrt u) = Some blocks"
  shows "isqrt u \<le> blocks" and "blocks \<le> isqrt u + 2" and "blocks < u"
    and "u \<le> blocks * isqrt u"
proof -
  define b where "b = isqrt u"
  have b5: "5 \<le> b" using assms(1) by (simp add: b_def isqrt_ge5)
  have u0: "0 \<le> u" using assms(1) by (simp add: SMALL_def)
  have sq: "b * b \<le> u" using u0 by (simp add: b_def isqrt_sq)
  have up: "u < (b + 1) * (b + 1)" using u0 by (simp add: b_def isqrt_upper)
  have eq: "blocks = max b ((u + b - 1) div b)"
    using assms(2) count_blocks_eq [of b u b] b5 by (simp add: b_def)
  show 1: "isqrt u \<le> blocks" using eq by (simp add: b_def)
  have "u + b - 1 \<le> (b + 2) * b + (b - 1)" using up by (simp add: algebra_simps)
  then have "(u + b - 1) div b \<le> ((b + 2) * b + (b - 1)) div b"
    by (rule zdiv_mono1) (use b5 in simp)
  also have "((b + 2) * b + (b - 1)) div b = b + 2" using b5 by simp
  finally show 2: "blocks \<le> isqrt u + 2" using eq by (simp add: b_def)
  have "b * 3 \<le> b * b" using b5 by (intro mult_left_mono) auto
  then have "b + 2 < b * b" using b5 by linarith
  then show "blocks < u" using 2 sq by (simp add: b_def)
  have "u \<le> ((u + b - 1) div b) * b"
  proof -
    have "u + b - 1 = ((u + b - 1) div b) * b + (u + b - 1) mod b" by simp
    moreover have "(u + b - 1) mod b < b" using b5 by simp
    ultimately show ?thesis by linarith
  qed
  also have "\<dots> \<le> blocks * b" using eq b5 by (intro mult_right_mono) auto
  finally show "u \<le> blocks * isqrt u" by (simp add: b_def)
qed

function V_generic :: "int \<Rightarrow> V option" where
  "V_generic sz =
     (let u = sz; b = isqrt u in
      if u \<ge> SMALL then
        (case count_blocks u b b of
           None \<Rightarrow> None
         | Some blocks \<Rightarrow>
             (case V_generic b of
                None \<Rightarrow> None
              | Some blk \<Rightarrow>
                  (case V_generic blocks of
                     None \<Rightarrow> None
                   | Some s \<Rightarrow> Some (V u b (-1) (-1) 0 (Some s) (replicate (nat blocks) blk)))))
      else Some (V u b (-1) (-1) 0 None []))"
  by pat_completeness auto
termination
proof (relation "measure nat")
  show "wf (measure nat)" by simp
next
  fix sz x xa x2 :: int
  assume "x = sz" "xa = isqrt x" "SMALL \<le> x" "count_blocks x xa xa = Some x2"
  then show "(xa, sz) \<in> measure nat"
    using isqrt_less [of sz] isqrt_nonneg [of sz] by (simp add: SMALL_def)
next
  fix sz x xa x2 :: int and x2a :: V
  assume "x = sz" "xa = isqrt x" "SMALL \<le> x" "count_blocks x xa xa = Some x2"
  then show "(x2, sz) \<in> measure nat"
    using blocks_bounds(1,3) [of sz x2] isqrt_nonneg [of sz] by (simp add: SMALL_def)
qed

declare V_generic.simps [simp del]

text \<open>
  The constructor of either file, the universe it builds, and the arguments for which no
  \<^verbatim>\<open>int\<close> of the source overflows: \<^verbatim>\<open>1 << bits\<close> is a positive \<^verbatim>\<open>int\<close> up
  to 30 bits, and the last product \<^verbatim>\<open>blocks * B\<close> that the loop of the generic
  constructor computes is below \<open>U + B\<close>. Inside these bounds every key, index and
  product of the operations is below \<open>U + B\<close> as well.
\<close>

definition construct :: "policy \<Rightarrow> int \<Rightarrow> V option" where
  "construct p d = (case p of Generic \<Rightarrow> V_generic d | Pow2 \<Rightarrow> Some (V_pow2 d))"

definition valid_descr :: "policy \<Rightarrow> int \<Rightarrow> bool" where
  "valid_descr p d =
     (case p of Generic \<Rightarrow> 1 \<le> d \<and> d + isqrt d \<le> INT_MAX | Pow2 \<Rightarrow> 0 \<le> d \<and> d \<le> 30)"

definition universe :: "policy \<Rightarrow> int \<Rightarrow> int" where
  "universe p d = (case p of Generic \<Rightarrow> d | Pow2 \<Rightarrow> push_bit (nat d) 1)"


section \<open>Operations\<close>

text \<open>
  An operation returns \<open>None\<close> where the C++ leaves the contract: an \<^verbatim>\<open>assert\<close>
  fails, \<^verbatim>\<open>block[i]\<close> is read outside the vector, the null \<^verbatim>\<open>summary\<close> is
  dereferenced, or a shift count is outside the width of \<^verbatim>\<open>int\<close>. Otherwise it
  returns the node as the in-place update leaves it (or the returned value).
\<close>

definition in_block :: "V list \<Rightarrow> int \<Rightarrow> bool" where
  "in_block blk i = (0 \<le> i \<and> i < int (length blk))"

lemma size_nth_block [termination_simp]:
  "in_block blk i \<Longrightarrow> size (blk ! nat i) < Suc (n + size_list size blk)"
proof -
  assume "in_block blk i"
  then have "nat i < length blk" by (auto simp: in_block_def)
  then have "blk ! nat i \<in> set blk" by (rule nth_mem)
  then have "size (blk ! nat i) \<le> size_list size blk" by (rule size_list_estimation') simp
  then show ?thesis by simp
qed

text \<open>\<^verbatim>\<open>V::insert\<close>, the same text in both files.\<close>

fun insert_V :: "policy \<Rightarrow> V \<Rightarrow> int \<Rightarrow> V option" where
  "insert_V p (V u b mn mx sm summ blk) x =
     (if \<not> (0 \<le> x \<and> x < u) then None
      else if mn = -1 then Some (V u b x x sm summ blk)
      else
        let (x, mn) = (if x < mn then (mn, x) else (x, mn));
            mx = (if x > mx then x else mx)
        in
        if u < SMALL then Some (V u b mn mx (sm OR push_bit (nat x) 1) summ blk)
        else
          let i = high p b x; j = low p b x in
          if \<not> in_block blk i then None
          else
            (case (if min_V (blk ! nat i) = -1
                   then (case summ of None \<Rightarrow> None
                         | Some s \<Rightarrow> map_option Some (insert_V p s i))
                   else Some summ) of
               None \<Rightarrow> None
             | Some summ' \<Rightarrow>
                 (case insert_V p (blk ! nat i) j of
                    None \<Rightarrow> None
                  | Some blk_i \<Rightarrow> Some (V u b mn mx sm summ' (blk[nat i := blk_i])))))"

text \<open>
  The rescan of a leaf in \<^verbatim>\<open>V::erase\<close>:
  \<^verbatim>\<open>for (int i = 0; i < U; i++) if (small >> i & 1) { ... }\<close>
  on the state \<open>(min, max, small)\<close>.
\<close>

function erase_scan :: "int \<Rightarrow> int \<Rightarrow> int \<times> int \<times> int \<Rightarrow> int \<times> int \<times> int" where
  "erase_scan u i (mn, mx, sm) =
     (if i < u then
        erase_scan u (i + 1)
          (if drop_bit (nat i) sm AND 1 \<noteq> 0 then
             (if mn = -1 then (i, i, sm AND NOT (push_bit (nat i) 1)) else (mn, i, sm))
           else (mn, mx, sm))
      else (mn, mx, sm))"
  by pat_completeness auto
termination
  by (relation "measure (\<lambda>(u, i, s). nat (u - i))") auto

declare erase_scan.simps [simp del]

text \<open>The first step of \<^verbatim>\<open>V::erase\<close> at a leaf, before the rescan.\<close>

definition erase_leaf :: "int \<Rightarrow> int \<times> int \<times> int \<Rightarrow> int \<Rightarrow> int \<times> int \<times> int" where
  "erase_leaf u s x =
     (case s of (mn, mx, sm) \<Rightarrow>
        let mn = (if x = mn then -1 else mn);
            mx = (if x = mx then mn else mx);
            sm = sm AND NOT (push_bit (nat x) 1)
        in erase_scan u 0 (mn, mx, sm))"

text \<open>
  \<^verbatim>\<open>if (x == min) { ... }\<close> of \<^verbatim>\<open>V::erase\<close> at an internal node: \<open>Inl ()\<close>
  is the early return after deleting the last element, \<open>Inr (x, min)\<close> carries on with
  the new \<open>x\<close> and \<open>min\<close>.
\<close>

definition erase_min :: "policy \<Rightarrow> V \<Rightarrow> int \<Rightarrow> (unit + int \<times> int) option" where
  "erase_min p t x =
     (if x = min_V t then
        (case summary t of
           None \<Rightarrow> None
         | Some s \<Rightarrow>
             let i = min_V s in
             if i = -1 then Some (Inl ())
             else if \<not> in_block (block t) i then None
             else let y = index p (B t) i (min_V (block t ! nat i)) in Some (Inr (y, y)))
      else Some (Inr (x, min_V t)))"

text \<open>\<^verbatim>\<open>if (x == max) { ... }\<close> at the end of \<^verbatim>\<open>V::erase\<close>: the new \<open>max\<close>.\<close>

definition erase_max :: "policy \<Rightarrow> int \<Rightarrow> int \<Rightarrow> int \<Rightarrow> V option \<Rightarrow> V list \<Rightarrow> int \<Rightarrow> int option"
  where
  "erase_max p b mn mx summ blk x =
     (if x = mx then
        (case summ of
           None \<Rightarrow> None
         | Some s \<Rightarrow>
             let i = max_V s in
             if i = -1 then Some mn
             else if \<not> in_block blk i then None
             else Some (index p b i (max_V (blk ! nat i))))
      else Some mx)"

text \<open>\<^verbatim>\<open>V::erase\<close>, the same text in both files.\<close>

fun erase :: "policy \<Rightarrow> V \<Rightarrow> int \<Rightarrow> V option" where
  "erase p (V u b mn mx sm summ blk) x =
     (if \<not> (0 \<le> x \<and> x < u) then None
      else if u < SMALL then
        (case erase_leaf u (mn, mx, sm) x of (mn, mx, sm) \<Rightarrow> Some (V u b mn mx sm summ blk))
      else
        (case erase_min p (V u b mn mx sm summ blk) x of
           None \<Rightarrow> None
         | Some (Inl _) \<Rightarrow> Some (V u b (-1) (-1) sm summ blk)
         | Some (Inr (x, mn)) \<Rightarrow>
             let h = high p b x in
             if \<not> in_block blk h then None
             else
               (case erase p (blk ! nat h) (low p b x) of
                  None \<Rightarrow> None
                | Some blk_h \<Rightarrow>
                    let blk = blk[nat h := blk_h] in
                    (case (if min_V blk_h = -1
                           then (case summ of None \<Rightarrow> None
                                 | Some s \<Rightarrow> map_option Some (erase p s h))
                           else Some summ) of
                       None \<Rightarrow> None
                     | Some summ \<Rightarrow>
                         (case erase_max p b mn mx summ blk x of
                            None \<Rightarrow> None
                          | Some mx \<Rightarrow> Some (V u b mn mx sm summ blk))))))"

text \<open>
  The scan of a leaf in \<^verbatim>\<open>V::successor\<close>:
  \<^verbatim>\<open>for (int i = x+1; i < U; i++) if (small >> i & 1) return i; return -1;\<close>
\<close>

function successor_scan :: "int \<Rightarrow> int \<Rightarrow> int \<Rightarrow> int" where
  "successor_scan u sm i =
     (if i < u then (if drop_bit (nat i) sm AND 1 \<noteq> 0 then i else successor_scan u sm (i + 1))
      else -1)"
  by pat_completeness auto
termination
  by (relation "measure (\<lambda>(u, sm, i). nat (u - i))") auto

declare successor_scan.simps [simp del]

text \<open>\<^verbatim>\<open>V::successor\<close>, the same text in both files.\<close>

fun successor :: "policy \<Rightarrow> V \<Rightarrow> int \<Rightarrow> int option" where
  "successor p (V u b mn mx sm summ blk) x =
     (if \<not> (0 \<le> x \<and> x < u) then None
      else if x < mn then Some mn
      else if u < SMALL then Some (successor_scan u sm (x + 1))
      else
        let i = high p b x; j = low p b x in
        if \<not> in_block blk i then None
        else if j < max_V (blk ! nat i) then
          (case successor p (blk ! nat i) j of
             None \<Rightarrow> None
           | Some j \<Rightarrow> Some (index p b i j))
        else
          (case summ of
             None \<Rightarrow> None
           | Some s \<Rightarrow>
               (case successor p s i of
                  None \<Rightarrow> None
                | Some i \<Rightarrow>
                    if i \<noteq> -1 then
                      (if \<not> in_block blk i then None
                       else
                         let j = min_V (blk ! nat i) in
                         if j = -1 then None else Some (index p b i j))
                    else Some (-1))))"

text \<open>
  \<^verbatim>\<open>V::contains\<close> is in \<^verbatim>\<open>VanEmdeBoasTree.cpp\<close> only; with \<open>Generic\<close> the same
  body is read with the other file's \<^verbatim>\<open>high\<close> and \<^verbatim>\<open>low\<close>. It has no
  \<^verbatim>\<open>assert\<close>; the shift \<^verbatim>\<open>small >> x\<close> is defined for \<open>0 \<le> x < 32\<close>.
\<close>

fun contains :: "policy \<Rightarrow> V \<Rightarrow> int \<Rightarrow> bool option" where
  "contains p (V u b mn mx sm summ blk) x =
     (if x = mn then Some True
      else if u < SMALL then
        (if 0 \<le> x \<and> x < 32 then Some (drop_bit (nat x) sm AND 1 \<noteq> 0) else None)
      else
        let i = high p b x in
        if \<not> in_block blk i then None else contains p (blk ! nat i) (low p b x))"


section \<open>Runs against the reference table\<close>

text \<open>
  A run applies a list of mutations to a node, as the harness does to the root.
  \<open>reference\<close> is the harness's table of the keys inserted and not yet erased, and
  \<open>obeys\<close> says that each mutation meets its precondition at the moment it is
  applied: a key of the universe, absent before \<^verbatim>\<open>insert\<close>, present before
  \<^verbatim>\<open>erase\<close>.
\<close>

datatype op = Insert int | Erase int

fun apply_op :: "policy \<Rightarrow> V \<Rightarrow> op \<Rightarrow> V option" where
  "apply_op p t (Insert x) = insert_V p t x"
| "apply_op p t (Erase x) = erase p t x"

fun run :: "policy \<Rightarrow> V \<Rightarrow> op list \<Rightarrow> V option" where
  "run p t [] = Some t"
| "run p t (c # cs) = (case apply_op p t c of None \<Rightarrow> None | Some t' \<Rightarrow> run p t' cs)"

fun reference :: "int set \<Rightarrow> op list \<Rightarrow> int set" where
  "reference S [] = S"
| "reference S (Insert x # cs) = reference (S \<union> {x}) cs"
| "reference S (Erase x # cs) = reference (S - {x}) cs"

fun obeys :: "int \<Rightarrow> int set \<Rightarrow> op list \<Rightarrow> bool" where
  "obeys u S [] = True"
| "obeys u S (Insert x # cs) = (0 \<le> x \<and> x < u \<and> x \<notin> S \<and> obeys u (S \<union> {x}) cs)"
| "obeys u S (Erase x # cs) = (0 \<le> x \<and> x < u \<and> x \<in> S \<and> obeys u (S - {x}) cs)"

text \<open>Construction followed by a run.\<close>

definition session :: "policy \<Rightarrow> int \<Rightarrow> op list \<Rightarrow> V option" where
  "session p d cs = (case construct p d of None \<Rightarrow> None | Some t \<Rightarrow> run p t cs)"

text \<open>Every node of a tree: the node, the nodes of its summary, the nodes of its blocks.\<close>

fun nodes :: "V \<Rightarrow> V list" where
  "nodes (V u b mn mx sm summ blk) =
     V u b mn mx sm summ blk #
     (case summ of None \<Rightarrow> [] | Some s \<Rightarrow> nodes s) @ concat (map nodes blk)"

text \<open>
  The keys each node of a tree is to hold when the tree as a whole is to hold the keys
  \<open>S\<close>, from \<open>S\<close> and the split alone: a node keeps the least of its keys in
  \<open>min\<close> and passes the others down, the summary gets their block indices
  \<open>high x\<close>, and block \<open>i\<close> gets the offsets \<open>low x\<close> of those with
  \<open>high x = i\<close>. The list pairs every node, in the order of \<open>nodes\<close>, with its keys.
\<close>

lemma size_nth_less [termination_simp]:
  "i < length blk \<Longrightarrow> size (blk ! i) < Suc (n + size_list size blk)"
proof -
  assume "i < length blk"
  then have "blk ! i \<in> set blk" by (rule nth_mem)
  then have "size (blk ! i) \<le> size_list size blk" by (rule size_list_estimation') simp
  then show ?thesis by simp
qed

fun node_sets :: "policy \<Rightarrow> V \<Rightarrow> int set \<Rightarrow> (V \<times> int set) list" where
  "node_sets p (V u b mn mx sm summ blk) S =
     (V u b mn mx sm summ blk, S) #
     (case summ of None \<Rightarrow> [] | Some s \<Rightarrow> node_sets p s (high p b ` (S - {Min S}))) @
     concat (map (\<lambda>i. node_sets p (blk ! i)
                    {low p b x |x. x \<in> S - {Min S} \<and> high p b x = int i})
               [0..<length blk])"

section \<open>A scenario\<close>

text \<open>
  The model computes. On the universe of 8 keys: after \<open>insert 3\<close> the key is a member,
  it is the successor of 0 and has no successor; after \<open>insert 5\<close> its successor is 5;
  after \<open>erase 3\<close> it is no member and the successor of 0 is 5. On a universe of 32
  keys, which has internal structure, both policies answer alike.
\<close>

lemma scenario_universe_8:
  "map_option (\<lambda>t. (contains Pow2 t 3, successor Pow2 t 0, successor Pow2 t 3))
     (session Pow2 3 [Insert 3]) = Some (Some True, Some 3, Some (-1))"
  "map_option (\<lambda>t. successor Pow2 t 3) (session Pow2 3 [Insert 3, Insert 5]) = Some (Some 5)"
  "map_option (\<lambda>t. (contains Pow2 t 3, successor Pow2 t 0))
     (session Pow2 3 [Insert 3, Insert 5, Erase 3]) = Some (Some False, Some 5)"
  by code_simp+

lemma scenario_universe_32:
  "map_option (\<lambda>t. map (successor Pow2 t) [2, 3, 17, 18, 31])
     (session Pow2 5 [Insert 5, Insert 17, Insert 3, Insert 31, Insert 18, Erase 17]) =
   Some [Some 3, Some 5, Some 18, Some 31, Some (-1)]"
  "map_option (\<lambda>t. map (successor Generic t) [2, 3, 17, 18, 31])
     (session Generic 32 [Insert 5, Insert 17, Insert 3, Insert 31, Insert 18, Erase 17]) =
   Some [Some 3, Some 5, Some 18, Some 31, Some (-1)]"
  by code_simp+

section \<open>The split of a key\<close>

text \<open>
  \<open>width\<close> is the number of keys of one block: \<open>B\<close> itself in the generic file,
  \<open>2 ^ B\<close> in the power-of-two file. On non-negative keys both policies divide by it.
\<close>

definition width :: "policy \<Rightarrow> int \<Rightarrow> int" where
  "width p b = (case p of Generic \<Rightarrow> b | Pow2 \<Rightarrow> 2 ^ nat b)"

lemma high_eq: "0 < width p b \<Longrightarrow> 0 \<le> x \<Longrightarrow> high p b x = x div width p b"
  by (cases p) (simp_all add: high_def width_def drop_bit_eq_div signed_divide_int_def sgn_if)

lemma low_eq: "0 < width p b \<Longrightarrow> 0 \<le> x \<Longrightarrow> low p b x = x mod width p b"
  by (cases p) (simp_all add: low_def width_def signed_modulo_int_def sgn_if
      flip: mask_eq_exp_minus_1 take_bit_eq_mask add: take_bit_eq_mod)

lemma index_eq:
  "0 \<le> j \<Longrightarrow> j < width p b \<Longrightarrow> index p b i j = i * width p b + j"
proof (cases p)
  case Generic
  then show ?thesis by (simp add: index_def width_def)
next
  case Pow2
  assume j: "0 \<le> j" "j < width p b"
  then have "take_bit (nat b) j = j"
    using Pow2 by (simp add: width_def take_bit_int_eq_self)
  then have "\<not> bit j n \<or> \<not> bit (push_bit (nat b) i) n" for n
    by (metis bit_push_bit_iff bit_take_bit_iff not_le)
  then have "push_bit (nat b) i + j = push_bit (nat b) i OR j"
    by (intro disjunctive_add_eq_or) (auto simp: bit_eq_iff bit_and_iff)
  then show ?thesis using Pow2 by (simp add: index_def width_def push_bit_eq_mult)
qed

section \<open>The scans of a leaf\<close>

text \<open>
  \<open>bits_from sm i u\<close> are the positions from \<open>i\<close> up to \<open>u\<close> at which \<open>sm\<close> has a
  set bit. The rescan of \<^verbatim>\<open>erase\<close> and the scan of \<^verbatim>\<open>successor\<close> compute the
  least and the greatest of them.
\<close>

lemma test_bit: "(drop_bit n (sm::int) AND 1 \<noteq> 0) = bit sm n"
  by (simp add: and_one_eq bit_iff_odd_drop_bit odd_iff_mod_2_eq_one)

lemma bit_set_iff: "bit ((sm::int) OR push_bit n 1) m = (bit sm m \<or> m = n)"
  by (auto simp: bit_simps)

lemma bit_clear_iff: "bit ((sm::int) AND NOT (push_bit n 1)) m = (bit sm m \<and> m \<noteq> n)"
  by (auto simp: bit_simps)

definition bits_from :: "int \<Rightarrow> int \<Rightarrow> int \<Rightarrow> int set" where
  "bits_from sm i u = {k. i \<le> k \<and> k < u \<and> bit sm (nat k)}"

lemma finite_bits_from [simp]: "finite (bits_from sm i u)"
proof -
  have "bits_from sm i u \<subseteq> {i..<u}" by (auto simp: bits_from_def)
  then show ?thesis by (rule finite_subset) simp
qed

lemma bits_from_step:
  "i < u \<Longrightarrow> bits_from sm i u = (if bit sm (nat i) then {i} else {}) \<union> bits_from sm (i + 1) u"
proof -
  assume "i < u"
  have "i \<le> k \<longleftrightarrow> k = i \<or> i + 1 \<le> k" for k by auto
  then show ?thesis using \<open>i < u\<close> by (auto simp: bits_from_def)
qed

lemma bits_from_empty: "u \<le> i \<Longrightarrow> bits_from sm i u = {}"
  by (auto simp: bits_from_def)

lemma bit_clear_iff': "bit ((sm::int) AND NOT (2 ^ n)) m = (bit sm m \<and> m \<noteq> n)"
  using bit_clear_iff [of sm n m] by simp

lemma bit_set_iff': "bit ((sm::int) OR 2 ^ n) m = (bit sm m \<or> m = n)"
  using bit_set_iff [of sm n m] by simp

lemma bits_from_clear:
  "0 \<le> i \<Longrightarrow> bits_from (sm AND NOT (push_bit (nat i) 1)) (i + 1) u = bits_from sm (i + 1) u"
  by (auto simp: bits_from_def bit_clear_iff')

lemma bits_from_nonempty: "i < u \<Longrightarrow> bit sm (nat i) \<Longrightarrow> bits_from sm i u \<noteq> {}"
  by (simp add: bits_from_step [of i u])

lemma bits_from_gt: "k \<in> bits_from sm (i + 1) u \<Longrightarrow> i < k"
  by (simp add: bits_from_def)

lemma Max_bits_from_step:
  assumes "i < u" "bit sm (nat i)"
  shows "Max (bits_from sm i u) = (if bits_from sm (i + 1) u = {} then i else Max (bits_from sm (i + 1) u))"
proof (cases "bits_from sm (i + 1) u = {}")
  case True
  then show ?thesis using assms by (simp add: bits_from_step)
next
  case False
  then have "i < Max (bits_from sm (i + 1) u)"
    using bits_from_gt [of "Max (bits_from sm (i + 1) u)" sm i u] by simp
  then show ?thesis using assms False by (simp add: bits_from_step [of i u])
qed

lemma Min_bits_from_step:
  assumes "i < u" "bit sm (nat i)"
  shows "Min (bits_from sm i u) = i"
proof -
  have "bits_from sm i u = Set.insert i (bits_from sm (i + 1) u)"
    using assms by (simp add: bits_from_step [of i u])
  moreover have "\<forall>k \<in> bits_from sm (i + 1) u. i \<le> k"
    by (auto dest: bits_from_gt)
  ultimately show ?thesis
    by (simp add: Min_insert2)
qed

lemma erase_scan_keep:
  "mn \<noteq> -1 \<Longrightarrow> erase_scan u i (mn, mx, sm) =
     (mn, if bits_from sm i u = {} then mx else Max (bits_from sm i u), sm)"
proof (induction "nat (u - i)" arbitrary: i mx rule: less_induct)
  case less
  show ?case
  proof (cases "i < u")
    case False
    then show ?thesis by (subst erase_scan.simps) (simp add: bits_from_empty)
  next
    case True
    then have m: "nat (u - (i + 1)) < nat (u - i)" by simp
    show ?thesis
    proof (cases "bit sm (nat i)")
      case b: True
      have "erase_scan u i (mn, mx, sm) = erase_scan u (i + 1) (mn, i, sm)"
        using True b less.prems by (subst erase_scan.simps) (simp add: test_bit)
      also have "\<dots> = (mn, if bits_from sm (i + 1) u = {} then i else Max (bits_from sm (i + 1) u), sm)"
        using less.hyps [OF m less.prems] .
      finally show ?thesis
        by (simp add: Max_bits_from_step [OF True b] bits_from_nonempty [OF True b])
    next
      case b: False
      have "erase_scan u i (mn, mx, sm) = erase_scan u (i + 1) (mn, mx, sm)"
        using True b less.prems by (subst erase_scan.simps) (simp add: test_bit)
      also have "\<dots> = (mn, if bits_from sm (i + 1) u = {} then mx else Max (bits_from sm (i + 1) u), sm)"
        using less.hyps [OF m less.prems] .
      finally show ?thesis
        using True b by (simp add: bits_from_step [of i u])
    qed
  qed
qed

lemma erase_scan_find:
  "0 \<le> i \<Longrightarrow> erase_scan u i (-1, mx, sm) =
     (if bits_from sm i u = {} then (-1, mx, sm)
      else (Min (bits_from sm i u), Max (bits_from sm i u),
            sm AND NOT (push_bit (nat (Min (bits_from sm i u))) 1)))"
proof (induction "nat (u - i)" arbitrary: i rule: less_induct)
  case less
  show ?case
  proof (cases "i < u")
    case False
    then show ?thesis by (subst erase_scan.simps) (simp add: bits_from_empty)
  next
    case True
    then have m: "nat (u - (i + 1)) < nat (u - i)" by simp
    show ?thesis
    proof (cases "bit sm (nat i)")
      case b: True
      have "i \<noteq> -1" using less.prems by simp
      have "erase_scan u i (-1, mx, sm) = erase_scan u (i + 1) (i, i, sm AND NOT (push_bit (nat i) 1))"
        using True b by (subst erase_scan.simps) (simp add: test_bit)
      also have "\<dots> = (i, if bits_from sm (i + 1) u = {} then i else Max (bits_from sm (i + 1) u),
          sm AND NOT (push_bit (nat i) 1))"
        unfolding erase_scan_keep [OF \<open>i \<noteq> -1\<close>] bits_from_clear [OF less.prems] ..
      finally show ?thesis
        by (simp add: Max_bits_from_step [OF True b] Min_bits_from_step [OF True b]
            bits_from_nonempty [OF True b])
    next
      case b: False
      have "erase_scan u i (-1, mx, sm) = erase_scan u (i + 1) (-1, mx, sm)"
        using True b by (subst erase_scan.simps) (simp add: test_bit)
      also have "\<dots> = (if bits_from sm (i + 1) u = {} then (-1, mx, sm)
      else (Min (bits_from sm (i + 1) u), Max (bits_from sm (i + 1) u),
            sm AND NOT (push_bit (nat (Min (bits_from sm (i + 1) u))) 1)))"
        using less.hyps [OF m] less.prems by simp
      finally show ?thesis
        using True b by (simp add: bits_from_step [of i u])
    qed
  qed
qed

lemma successor_scan_eq:
  "successor_scan u sm i = (if bits_from sm i u = {} then -1 else Min (bits_from sm i u))"
proof (induction "nat (u - i)" arbitrary: i rule: less_induct)
  case less
  show ?case
  proof (cases "i < u")
    case False
    then show ?thesis by (subst successor_scan.simps) (simp add: bits_from_empty)
  next
    case True
    then have m: "nat (u - (i + 1)) < nat (u - i)" by simp
    show ?thesis
    proof (cases "bit sm (nat i)")
      case b: True
      then show ?thesis
        using True by (subst successor_scan.simps)
          (simp add: test_bit Min_bits_from_step [OF True b] bits_from_nonempty [OF True b])
    next
      case b: False
      have "successor_scan u sm i = successor_scan u sm (i + 1)"
        using True b by (subst successor_scan.simps) (simp add: test_bit)
      then show ?thesis
        using less.hyps [OF m] True b by (simp add: bits_from_step [of i u])
    qed
  qed
qed

section \<open>The invariant of a leaf\<close>

text \<open>
  In a leaf, \<open>min\<close> and \<open>max\<close> are both \<open>-1\<close> or both keys of the universe; every
  set bit of the mask lies strictly above \<open>min\<close> and not above \<open>max\<close>; and \<open>max\<close>,
  when it is not \<open>min\<close>, is in the mask. \<open>leaf_set\<close> are the keys of a leaf, and
  \<open>next_above S x\<close> is the least member of \<open>S\<close> greater than \<open>x\<close>, or \<open>-1\<close>.
\<close>

definition leaf_inv :: "int \<Rightarrow> int \<times> int \<times> int \<Rightarrow> bool" where
  "leaf_inv u s =
     (case s of (mn, mx, sm) \<Rightarrow>
        (mn = -1 \<longrightarrow> mx = -1) \<and> (mn \<noteq> -1 \<longrightarrow> 0 \<le> mn \<and> mn \<le> mx \<and> mx < u) \<and>
        (\<forall>k. bit sm k \<longrightarrow> mn \<noteq> -1 \<and> mn < int k \<and> int k \<le> mx) \<and>
        (mn \<noteq> mx \<longrightarrow> bit sm (nat mx)))"

definition leaf_set :: "int \<times> int \<times> int \<Rightarrow> int set" where
  "leaf_set s = (case s of (mn, mx, sm) \<Rightarrow> {x. 0 \<le> x \<and> (x = mn \<or> bit sm (nat x))})"

definition next_above :: "int set \<Rightarrow> int \<Rightarrow> int" where
  "next_above S x = (if {y \<in> S. x < y} = {} then -1 else Min {y \<in> S. x < y})"

lemma leaf_bits:
  "leaf_inv u (mn, mx, sm) \<Longrightarrow> 0 \<le> i \<Longrightarrow> bits_from sm i u = {k. i \<le> k \<and> bit sm (nat k)}"
  by (fastforce simp: leaf_inv_def bits_from_def)

lemma leaf_insert_empty:
  "leaf_inv u (-1, mx, sm) \<Longrightarrow> 0 \<le> x \<Longrightarrow> x < u \<Longrightarrow>
     leaf_inv u (x, x, sm) \<and> leaf_set (x, x, sm) = {x}"
  by (auto simp: leaf_inv_def leaf_set_def)

lemma leaf_insert:
  assumes "leaf_inv u (mn, mx, sm)" "0 \<le> x" "x < u" "x \<notin> leaf_set (mn, mx, sm)" "mn \<noteq> -1"
    and "(x', mn') = (if x < mn then (mn, x) else (x, mn))"
    and "mx' = (if x' > mx then x' else mx)"
  shows "leaf_inv u (mn', mx', sm OR push_bit (nat x') 1)"
    and "leaf_set (mn', mx', sm OR push_bit (nat x') 1) = leaf_set (mn, mx, sm) \<union> {x}"
proof -
  have x: "x \<noteq> mn" "\<not> bit sm (nat x)" using assms(2,4) by (auto simp: leaf_set_def)
  have inv: "0 \<le> mn" "mn \<le> mx" "mx < u" "\<And>k. bit sm k \<Longrightarrow> mn < int k" "\<And>k. bit sm k \<Longrightarrow> int k \<le> mx"
    "mn \<noteq> mx \<Longrightarrow> bit sm (nat mx)"
    using assms(1,5) by (auto simp: leaf_inv_def)
  show "leaf_inv u (mn', mx', sm OR push_bit (nat x') 1)"
  proof (cases "x < mn")
    case True
    then show ?thesis using assms(2,3,6,7) x inv
      by (fastforce simp: leaf_inv_def bit_set_iff')
  next
    case False
    then show ?thesis using assms(2,3,6,7) x inv
      by (fastforce simp: leaf_inv_def bit_set_iff')
  qed
  show "leaf_set (mn', mx', sm OR push_bit (nat x') 1) = leaf_set (mn, mx, sm) \<union> {x}"
  proof (cases "x < mn")
    case True
    then show ?thesis using assms(2,3,6,7) x inv
      by (fastforce simp: leaf_set_def bit_set_iff')
  next
    case False
    then show ?thesis using assms(2,3,6,7) x inv
      by (fastforce simp: leaf_set_def bit_set_iff')
  qed
qed


lemma clear_unset: "\<not> bit (sm::int) n \<Longrightarrow> sm AND NOT (push_bit n 1) = sm"
  by (rule bit_eqI) (auto simp: bit_clear_iff')

lemma erase_leaf_eq:
  "erase_leaf u (mn, mx, sm) x =
     erase_scan u 0 (if x = mn then -1 else mn, if x = mx then (if x = mn then -1 else mn) else mx,
       sm AND NOT (push_bit (nat x) 1))"
  by (simp add: erase_leaf_def Let_def)

lemma leaf_erase_absent:
  assumes "leaf_inv u (mn, mx, sm)" "0 \<le> x" "x \<notin> leaf_set (mn, mx, sm)"
  shows "erase_leaf u (mn, mx, sm) x = (mn, mx, sm)"
proof -
  have x: "x \<noteq> mn" "\<not> bit sm (nat x)" using assms(2,3) by (auto simp: leaf_set_def)
  have sm: "sm AND NOT (push_bit (nat x) 1) = sm" using x(2) by (rule clear_unset)
  show ?thesis
  proof (cases "mn = -1")
    case True
    then have "mx = -1" "bits_from sm 0 u = {}"
      using assms(1) by (auto simp: leaf_inv_def bits_from_def)
    then show ?thesis
      using True x assms(2) unfolding erase_leaf_eq sm by (simp add: erase_scan_find)
  next
    case False
    then have inv: "mn \<le> mx" "\<And>k. bit sm k \<Longrightarrow> int k \<le> mx" "mn \<noteq> mx \<Longrightarrow> bit sm (nat mx)"
      "x \<noteq> mx" "0 \<le> mx" "mx < u"
      using assms(1) x by (auto simp: leaf_inv_def)
    have "Max (bits_from sm 0 u) = mx" if "bits_from sm 0 u \<noteq> {}"
    proof (rule Max_eqI)
      show "finite (bits_from sm 0 u)" by simp
      show "y \<le> mx" if "y \<in> bits_from sm 0 u" for y
        using that inv(2) [of "nat y"] by (simp add: bits_from_def)
      obtain k where "k \<in> bits_from sm 0 u" using \<open>bits_from sm 0 u \<noteq> {}\<close> by blast
      then have "mn \<noteq> mx" using assms(1) False by (auto simp: leaf_inv_def bits_from_def)
      then show "mx \<in> bits_from sm 0 u"
        using inv by (simp add: bits_from_def)
    qed
    then show ?thesis
      using False x inv(4) unfolding erase_leaf_eq sm by (simp add: erase_scan_keep)
  qed
qed

lemma leaf_erase:
  assumes "leaf_inv u (mn, mx, sm)" "x \<in> leaf_set (mn, mx, sm)"
  shows "leaf_inv u (erase_leaf u (mn, mx, sm) x)"
    and "leaf_set (erase_leaf u (mn, mx, sm) x) = leaf_set (mn, mx, sm) - {x}"
proof -
  define sm1 where "sm1 = sm AND NOT (push_bit (nat x) 1)"
  define B1 where "B1 = bits_from sm1 0 u"
  have x0: "0 \<le> x" "x = mn \<or> bit sm (nat x)" using assms(2) by (auto simp: leaf_set_def)
  have mn: "mn \<noteq> -1" using assms x0 by (auto simp: leaf_inv_def)
  then have inv: "0 \<le> mn" "mn \<le> mx" "mx < u" "\<And>k. bit sm k \<Longrightarrow> mn < int k"
    "\<And>k. bit sm k \<Longrightarrow> int k \<le> mx" "mn \<noteq> mx \<Longrightarrow> bit sm (nat mx)"
    using assms(1) by (auto simp: leaf_inv_def)
  have sm1: "bit sm1 k \<longleftrightarrow> bit sm k \<and> k \<noteq> nat x" for k
    by (simp add: sm1_def bit_clear_iff')
  have B1: "k \<in> B1 \<longleftrightarrow> 0 \<le> k \<and> bit sm (nat k) \<and> k \<noteq> x" for k
    using inv(5) [of "nat k"] inv(3) x0(1) by (auto simp: B1_def bits_from_def sm1)
  have fin: "finite B1" by (simp add: B1_def)
  have mm: "Min B1 \<in> B1" "Max B1 \<in> B1" "\<And>k. k \<in> B1 \<Longrightarrow> Min B1 \<le> k" "\<And>k. k \<in> B1 \<Longrightarrow> k \<le> Max B1"
    if "B1 \<noteq> {}"
    using that fin by simp_all
  show "leaf_inv u (erase_leaf u (mn, mx, sm) x)"
  proof (cases "x = mn")
    case True
    have e: "erase_leaf u (mn, mx, sm) x =
      (if B1 = {} then (-1, if x = mx then -1 else mx, sm1)
       else (Min B1, Max B1, sm1 AND NOT (push_bit (nat (Min B1)) 1)))"
      unfolding erase_leaf_eq sm1_def [symmetric] using True
      by (simp add: erase_scan_find flip: B1_def)
    show ?thesis
    proof (cases "B1 = {}")
      case e1: True
      then have "\<not> bit sm k" for k
        using B1 [of "int k"] inv(4) [of k] True by auto
      then show ?thesis using e e1 True inv(6) by (auto simp: leaf_inv_def sm1)
    next
      case e1: False
      have "bit (sm1 AND NOT (push_bit (nat (Min B1)) 1)) k \<Longrightarrow> Min B1 < int k \<and> int k \<le> Max B1" for k
        using mm(3,4) [OF e1, of "int k"] B1 [of "int k"] by (auto simp: bit_clear_iff' sm1)
      moreover have "Min B1 \<noteq> Max B1 \<Longrightarrow> bit (sm1 AND NOT (push_bit (nat (Min B1)) 1)) (nat (Max B1))"
        using mm(1,2) [OF e1] x0(1) by (auto simp: bit_clear_iff' sm1 B1)
      moreover have "0 \<le> Min B1" "Min B1 \<le> Max B1" "Max B1 < u"
        using mm(1,2) [OF e1] mm(3) [OF e1, of "Max B1"] inv(3) inv(5) [of "nat (Max B1)"]
        by (auto simp: B1)
      ultimately show ?thesis using e e1 by (auto simp: leaf_inv_def)
    qed
  next
    case False
    have e: "erase_leaf u (mn, mx, sm) x =
      (mn, if B1 = {} then (if x = mx then mn else mx) else Max B1, sm1)"
      unfolding erase_leaf_eq sm1_def [symmetric] using False mn
      by (simp add: erase_scan_keep flip: B1_def)
    have bx: "bit sm (nat x)" using False x0 by simp
    show ?thesis
    proof (cases "B1 = {}")
      case e1: True
      have "mn \<noteq> mx" using inv(4,5) [OF bx] by simp
      then have "mx = x" using e1 B1 [of mx] inv(1,2,6) by auto
      moreover have "\<not> bit sm1 k" for k
        using e1 B1 [of "int k"] sm1 [of k] x0(1) by auto
      ultimately show ?thesis using e e1 inv by (auto simp: leaf_inv_def)
    next
      case e1: False
      have "bit sm1 k \<Longrightarrow> mn < int k \<and> int k \<le> Max B1" for k
        using mm(4) [OF e1, of "int k"] B1 [of "int k"] inv(4) [of k] x0(1) by (auto simp: sm1)
      moreover have "bit sm1 (nat (Max B1))"
        using mm(2) [OF e1] B1 [of "Max B1"] x0(1) by (auto simp: sm1)
      moreover have "mn \<le> Max B1" "Max B1 < u"
        using mm(2) [OF e1] B1 [of "Max B1"] inv(3) inv(4,5) [of "nat (Max B1)"] by auto
      ultimately show ?thesis using e e1 inv(1) mn by (auto simp: leaf_inv_def)
    qed
  qed
  show "leaf_set (erase_leaf u (mn, mx, sm) x) = leaf_set (mn, mx, sm) - {x}"
  proof (cases "x = mn")
    case True
    have e: "erase_leaf u (mn, mx, sm) x =
      (if B1 = {} then (-1, if x = mx then -1 else mx, sm1)
       else (Min B1, Max B1, sm1 AND NOT (push_bit (nat (Min B1)) 1)))"
      unfolding erase_leaf_eq sm1_def [symmetric] using True
      by (simp add: erase_scan_find flip: B1_def)
    have nb: "\<not> bit sm (nat mn)" using inv(4) [of "nat mn"] inv(1) by auto
    have ls: "leaf_set (mn, mx, sm) - {x} = B1"
      using True nb by (auto simp: leaf_set_def B1)
    show ?thesis
    proof (cases "B1 = {}")
      case e1: True
      then have "\<not> bit sm k" for k
        using B1 [of "int k"] inv(4) [of k] True by auto
      then show ?thesis using e e1 ls by (auto simp: leaf_set_def sm1)
    next
      case e1: False
      have "0 \<le> Min B1" using mm(1) [OF e1] by (simp add: B1)
      then have "leaf_set (Min B1, Max B1, sm1 AND NOT (push_bit (nat (Min B1)) 1)) = B1"
        using mm(1) [OF e1] x0(1) by (auto simp: leaf_set_def bit_clear_iff' sm1 B1)
      then show ?thesis using e e1 ls by simp
    qed
  next
    case False
    have e: "erase_leaf u (mn, mx, sm) x =
      (mn, if B1 = {} then (if x = mx then mn else mx) else Max B1, sm1)"
      unfolding erase_leaf_eq sm1_def [symmetric] using False mn
      by (simp add: erase_scan_keep flip: B1_def)
    show ?thesis
      unfolding e using False x0(1) inv(1) by (auto simp: leaf_set_def sm1)
  qed
qed

lemma leaf_successor:
  assumes "leaf_inv u (mn, mx, sm)" "0 \<le> x" "\<not> x < mn"
  shows "successor_scan u sm (x + 1) = next_above (leaf_set (mn, mx, sm)) x"
proof -
  have eq: "bits_from sm (x + 1) u = {y \<in> leaf_set (mn, mx, sm). x < y}"
    using assms by (auto simp: leaf_bits leaf_set_def)
  show ?thesis unfolding successor_scan_eq next_above_def eq ..
qed

section \<open>The invariant of the tree\<close>

text \<open>
  The keys a node holds, \<open>elems\<close>, are the keys of its universe on which
  \<^verbatim>\<open>contains\<close> returns true; \<open>stored\<close> are the keys that the blocks of an internal
  node hold, recombined. The invariant of an internal node: the blocks have the width of
  the split and cover the universe; the summary holds the indices of the non-empty
  blocks; \<open>min\<close> is smaller than every stored key and is not stored itself; \<open>max\<close> is
  the greatest stored key, or \<open>min\<close> when nothing is stored. A leaf has the leaf
  invariant and no children.
\<close>

declare insert_V.simps [simp del] erase.simps [simp del] successor.simps [simp del]
  contains.simps [simp del]

definition elems :: "policy \<Rightarrow> V \<Rightarrow> int set" where
  "elems p t = {x. 0 \<le> x \<and> x < U t \<and> contains p t x = Some True}"

definition stored :: "policy \<Rightarrow> int \<Rightarrow> V list \<Rightarrow> int set" where
  "stored p b blk =
     {x. 0 \<le> x \<and> x div width p b < int (length blk) \<and>
         x mod width p b \<in> elems p (blk ! nat (x div width p b))}"

fun invar :: "policy \<Rightarrow> V \<Rightarrow> bool" where
  "invar p (V u b mn mx sm summ blk) =
     (if u < SMALL then leaf_inv u (mn, mx, sm) \<and> summ = None \<and> blk = []
      else
        0 \<le> b \<and> 0 < width p b \<and> u \<le> int (length blk) * width p b \<and>
        (\<forall>c \<in> set blk. invar p c \<and> U c = width p b) \<and>
        (case summ of
           None \<Rightarrow> False
         | Some s \<Rightarrow>
             invar p s \<and> U s = int (length blk) \<and>
             elems p s = {i. 0 \<le> i \<and> i < int (length blk) \<and> min_V (blk ! nat i) \<noteq> -1}) \<and>
        (mn = -1 \<longrightarrow> mx = -1) \<and> (mn \<noteq> -1 \<longrightarrow> 0 \<le> mn \<and> mn \<le> mx \<and> mx < u) \<and>
        (\<forall>x \<in> stored p b blk. mn \<noteq> -1 \<and> mn < x \<and> x \<le> mx) \<and>
        (mn \<noteq> mx \<longrightarrow> mx \<in> stored p b blk))"

lemma elems_bounds: "x \<in> elems p t \<Longrightarrow> 0 \<le> x \<and> x < U t"
  by (simp add: elems_def)

lemma elems_leaf:
  "u < SMALL \<Longrightarrow> elems p (V u b mn mx sm summ blk) = {x \<in> leaf_set (mn, mx, sm). x < u}"
  by (auto simp: elems_def leaf_set_def SMALL_def test_bit contains.simps)

lemma leaf_set_bounded: "leaf_inv u s \<Longrightarrow> x \<in> leaf_set s \<Longrightarrow> x < u"
  by (cases s) (fastforce simp: leaf_inv_def leaf_set_def)

lemma elems_leaf_inv:
  "u < SMALL \<Longrightarrow> leaf_inv u (mn, mx, sm) \<Longrightarrow>
     elems p (V u b mn mx sm summ blk) = leaf_set (mn, mx, sm)"
  using leaf_set_bounded [of u "(mn, mx, sm)"] by (auto simp: elems_leaf)

lemma split_key: "0 < (w::int) \<Longrightarrow> 0 \<le> j \<Longrightarrow> j < w \<Longrightarrow> (i * w + j) div w = i \<and> (i * w + j) mod w = j"
  by simp

lemma div_lt_iff: "0 < (w::int) \<Longrightarrow> (x div w < n) = (x < n * w)"
proof
  assume w: "0 < w" and "x div w < n"
  show "x < n * w"
  proof (rule ccontr)
    assume "\<not> x < n * w"
    then have "n * w \<le> x" by simp
    then have "(n * w) div w \<le> x div w" using w by (rule zdiv_mono1)
    then show False using w \<open>x div w < n\<close> by simp
  qed
next
  assume w: "0 < w" and "x < n * w"
  then have "x \<le> (n - 1) * w + (w - 1)" by (simp add: algebra_simps)
  then have "x div w \<le> ((n - 1) * w + (w - 1)) div w" using w by (rule zdiv_mono1)
  also have "\<dots> = n - 1" using w by simp
  finally show "x div w < n" by simp
qed

lemma key_less_iff:
  "0 < (w::int) \<Longrightarrow> x < y \<longleftrightarrow> x div w < y div w \<or> (x div w = y div w \<and> x mod w < y mod w)"
proof -
  assume w: "0 < w"
  have x: "x = x div w * w + x mod w" and y: "y = y div w * w + y mod w" by simp_all
  have mx: "0 \<le> x mod w" "x mod w < w" and my: "0 \<le> y mod w" "y mod w < w" using w by simp_all
  show ?thesis
  proof (cases "x div w < y div w")
    case True
    then have "x div w + 1 \<le> y div w" by simp
    then have "(x div w + 1) * w \<le> y div w * w" using w by (intro mult_right_mono) auto
    then have "x div w * w + w \<le> y div w * w" by (simp add: algebra_simps)
    then have "x div w * w + x mod w < y div w * w + y mod w" using mx my by linarith
    then show ?thesis using True x y by simp
  next
    case False
    show ?thesis
    proof (cases "x div w = y div w")
      case True
      then have "x < y \<longleftrightarrow> x mod w < y mod w" 
        by (metis add_less_cancel_left x y)
      then show ?thesis using True by simp
    next
      case ne: False
      then have "y div w < x div w" using False by simp
      then have "y div w + 1 \<le> x div w" by simp
      then have "(y div w + 1) * w \<le> x div w * w" using w by (intro mult_right_mono) auto
      then have "y div w * w + w \<le> x div w * w" by (simp add: algebra_simps)
      then have "y div w * w + y mod w < x div w * w + x mod w" using mx my by linarith
      then have "y < x"  using x y by simp
      then show ?thesis using False ne by simp
    qed
  qed
qed

lemma in_block_nat: "in_block blk i \<Longrightarrow> nat i < length blk"
  by (auto simp: in_block_def)

lemma in_block_nth: "in_block blk i \<Longrightarrow> blk ! nat i \<in> set blk"
  by (simp add: in_block_nat)

lemma div_in_block:
  assumes "0 \<le> x" "x < u" "u \<le> int (length blk) * w" "0 < w"
  shows "in_block blk (x div w)"
proof -
  have "x < int (length blk) * w" using assms by simp
  then have "x div w < int (length blk)" using assms(4)
    by (simp add: div_lt_iff)
  moreover have "0 \<le> x div w" using assms by (simp add: pos_imp_zdiv_nonneg_iff)
  ultimately show ?thesis by (simp add: in_block_def)
qed

lemma elems_internal:
  assumes "\<not> u < SMALL" "0 < width p b" "u \<le> int (length blk) * width p b"
    "\<forall>c \<in> set blk. U c = width p b"
  shows "elems p (V u b mn mx sm summ blk) =
     {x. 0 \<le> x \<and> x < u \<and> (x = mn \<or> x \<in> stored p b blk)}"
proof -
  have "contains p (V u b mn mx sm summ blk) x = Some True \<longleftrightarrow> x = mn \<or> x \<in> stored p b blk"
    if x: "0 \<le> x" "x < u" for x
  proof -
    have ib: "in_block blk (x div width p b)"
      using x assms(3,2) by (rule div_in_block)
    then have "blk ! nat (x div width p b) \<in> set blk" by (rule in_block_nth)
    then have "U (blk ! nat (x div width p b)) = width p b" using assms(4) by simp
    moreover have "0 \<le> x mod width p b" "x mod width p b < width p b" using assms(2) by simp_all
    ultimately have "x mod width p b \<in> elems p (blk ! nat (x div width p b)) \<longleftrightarrow>
      contains p (blk ! nat (x div width p b)) (x mod width p b) = Some True"
      by (simp add: elems_def)
    then show ?thesis
      using x ib assms(1,2)
      by (simp add: contains.simps high_eq low_eq stored_def in_block_def)
  qed
  then show ?thesis by (auto simp: elems_def)
qed

lemma invar_elems_internal:
  assumes "invar p (V u b mn mx sm summ blk)" "\<not> u < SMALL"
  shows "elems p (V u b mn mx sm summ blk) = (if mn = -1 then {} else {mn}) \<union> stored p b blk"
proof -
  have "elems p (V u b mn mx sm summ blk) =
     {x. 0 \<le> x \<and> x < u \<and> (x = mn \<or> x \<in> stored p b blk)}"
    using assms by (intro elems_internal) simp_all
  moreover have "x \<in> stored p b blk \<Longrightarrow> 0 \<le> x \<and> x < u" for x
    using assms by (auto simp: stored_def)
  ultimately show ?thesis using assms by auto
qed


lemma invar_elems_leaf:
  assumes "invar p (V u b mn mx sm summ blk)" "u < SMALL"
  shows "elems p (V u b mn mx sm summ blk) = leaf_set (mn, mx, sm)"
  using assms by (simp add: elems_leaf_inv)

lemma invar_empty:
  assumes "invar p t" "min_V t = -1"
  shows "max_V t = -1" and "elems p t = {}"
proof -
  obtain u b mn mx sm summ blk where t: "t = V u b mn mx sm summ blk" by (cases t)
  show "max_V t = -1" using assms t by (auto simp: leaf_inv_def split: if_splits)
  show "elems p t = {}"
  proof (cases "u < SMALL")
    case True
    then show ?thesis using assms t
      by (auto simp: invar_elems_leaf leaf_set_def leaf_inv_def)
  next
    case False
    then have "stored p b blk = {}" using assms t by auto
    then show ?thesis using assms t False by (simp add: invar_elems_internal)
  qed
qed

lemma invar_nonempty:
  assumes "invar p t" "min_V t \<noteq> -1"
  shows "min_V t \<in> elems p t" and "max_V t \<in> elems p t"
    and "\<And>x. x \<in> elems p t \<Longrightarrow> min_V t \<le> x \<and> x \<le> max_V t"
proof -
  obtain u b mn mx sm summ blk where t: "t = V u b mn mx sm summ blk" by (cases t)
  have "min_V t \<in> elems p t \<and> max_V t \<in> elems p t \<and>
    (\<forall>x \<in> elems p t. min_V t \<le> x \<and> x \<le> max_V t)"
  proof (cases "u < SMALL")
    case True
    then have "leaf_inv u (mn, mx, sm)" using assms t by simp
    then show ?thesis using assms t True
      by (fastforce simp: invar_elems_leaf leaf_set_def leaf_inv_def)
  next
    case False
    then show ?thesis using assms t by (auto simp: invar_elems_internal)
  qed
  then show "min_V t \<in> elems p t" and "max_V t \<in> elems p t"
    and "\<And>x. x \<in> elems p t \<Longrightarrow> min_V t \<le> x \<and> x \<le> max_V t" by auto
qed

lemma invar_min_iff: "invar p t \<Longrightarrow> (min_V t = -1) = (elems p t = {})"
  using invar_empty(2) invar_nonempty(1) by blast

lemma stored_update:
  assumes "in_block blk i" "0 < width p b"
  shows "stored p b (blk[nat i := c]) =
     {x \<in> stored p b blk. x div width p b \<noteq> i} \<union>
     {x. 0 \<le> x \<and> x div width p b = i \<and> x mod width p b \<in> elems p c}"
proof -
  have "nat i = nat (x div width p b) \<longleftrightarrow> x div width p b = i" if "0 \<le> x" for x
  proof -
    have "0 \<le> x div width p b" using that assms(2) by (simp add: pos_imp_zdiv_nonneg_iff)
    moreover have "0 \<le> i" using assms(1) by (simp add: in_block_def)
    ultimately show ?thesis by auto
  qed
  then show ?thesis
    using assms by (auto simp: stored_def nth_list_update in_block_def split: if_splits)
qed

lemma key_eq_iff:
  "0 < (w::int) \<Longrightarrow> (x div w = i \<and> x mod w = j) = (x = i * w + j \<and> 0 \<le> j \<and> j < w)"
  by (auto simp: split_key)

lemma same_key_iff: "(y div w = x div w \<and> y mod w = x mod w) = (y = (x::int))"
proof
  assume a: "y div w = x div w \<and> y mod w = x mod w"
  have "y = y div w * w + y mod w" by simp
  also have "\<dots> = x div w * w + x mod w" using a by simp
  finally show "y = x" by simp
qed simp

lemma stored_block:
  assumes "in_block blk i" "0 < width p b" "y div width p b = i"
  shows "y \<in> stored p b blk \<longleftrightarrow> 0 \<le> y \<and> y mod width p b \<in> elems p (blk ! nat i)"
  using assms by (auto simp: stored_def in_block_def)

lemma stored_update_same:
  assumes "in_block blk i" "0 < width p b" "y div width p b = i"
  shows "y \<in> stored p b (blk[nat i := c]) \<longleftrightarrow> 0 \<le> y \<and> y mod width p b \<in> elems p c"
  using assms by (simp add: stored_update)

lemma stored_update_other:
  assumes "in_block blk i" "0 < width p b" "y div width p b \<noteq> i"
  shows "y \<in> stored p b (blk[nat i := c]) \<longleftrightarrow> y \<in> stored p b blk"
  using assms by (simp add: stored_update)

lemma stored_add:
  assumes "in_block blk (x div width p b)" "0 < width p b" "0 \<le> x"
    and "elems p c = elems p (blk ! nat (x div width p b)) \<union> {x mod width p b}"
  shows "stored p b (blk[nat (x div width p b) := c]) = stored p b blk \<union> {x}"
proof (rule set_eqI)
  fix y
  show "y \<in> stored p b (blk[nat (x div width p b) := c]) \<longleftrightarrow> y \<in> stored p b blk \<union> {x}"
  proof (cases "y div width p b = x div width p b")
    case True
    have "y mod width p b = x mod width p b \<longleftrightarrow> y = x"
      using True same_key_iff [of y "width p b" x] by simp
    then show ?thesis
      using assms(3)
      by (auto simp: stored_update_same [OF assms(1,2) True] stored_block [OF assms(1,2) True]
          assms(4))
  next
    case False
    then have "y \<noteq> x" by auto
    then show ?thesis
      unfolding stored_update_other [OF assms(1,2) False] by simp
  qed
qed

lemma stored_remove:
  assumes "in_block blk (x div width p b)" "0 < width p b" "0 \<le> x"
    and "elems p c = elems p (blk ! nat (x div width p b)) - {x mod width p b}"
  shows "stored p b (blk[nat (x div width p b) := c]) = stored p b blk - {x}"
proof (rule set_eqI)
  fix y
  show "y \<in> stored p b (blk[nat (x div width p b) := c]) \<longleftrightarrow> y \<in> stored p b blk - {x}"
  proof (cases "y div width p b = x div width p b")
    case True
    have "y mod width p b = x mod width p b \<longleftrightarrow> y = x"
      using True same_key_iff [of y "width p b" x] by simp
    then show ?thesis
      using assms(3)
      by (auto simp: stored_update_same [OF assms(1,2) True] stored_block [OF assms(1,2) True]
          assms(4))
  next
    case False
    then have "y \<noteq> x" by auto
    then show ?thesis
      unfolding stored_update_other [OF assms(1,2) False] by simp
  qed
qed

section \<open>Insertion\<close>

lemma insert_V_first:
  "0 \<le> x \<Longrightarrow> x < u \<Longrightarrow> insert_V p (V u b (-1) mx sm summ blk) x = Some (V u b x x sm summ blk)"
  by (simp add: insert_V.simps)

lemma insert_V_leaf:
  "0 \<le> x \<Longrightarrow> x < u \<Longrightarrow> mn \<noteq> -1 \<Longrightarrow> u < SMALL \<Longrightarrow>
   insert_V p (V u b mn mx sm summ blk) x =
     Some (V u b (min x mn) (max (max x mn) mx) (sm OR push_bit (nat (max x mn)) 1) summ blk)"
  by (simp add: insert_V.simps Let_def min_def max_def)

lemma insert_V_internal:
  "0 \<le> x \<Longrightarrow> x < u \<Longrightarrow> mn \<noteq> -1 \<Longrightarrow> \<not> u < SMALL \<Longrightarrow>
   insert_V p (V u b mn mx sm summ blk) x =
     (let i = high p b (max x mn); j = low p b (max x mn) in
      if \<not> in_block blk i then None
      else
        (case (if min_V (blk ! nat i) = -1
               then (case summ of None \<Rightarrow> None
                     | Some s \<Rightarrow> map_option Some (insert_V p s i))
               else Some summ) of
           None \<Rightarrow> None
         | Some summ' \<Rightarrow>
             (case insert_V p (blk ! nat i) j of
                None \<Rightarrow> None
              | Some blk_i \<Rightarrow>
                  Some (V u b (min x mn) (max (max x mn) mx) sm summ' (blk[nat i := blk_i])))))"
proof (cases "x < mn")
  case True
  assume "0 \<le> x" "x < u" "mn \<noteq> -1" "\<not> u < SMALL"
  moreover have "min x mn = x" "max x mn = mn" using True by simp_all
  ultimately show ?thesis using True
    by (simp add: insert_V.simps Let_def max_def cong: option.case_cong if_cong)
next
  case False
  assume "0 \<le> x" "x < u" "mn \<noteq> -1" "\<not> u < SMALL"
  moreover have "min x mn = mn" "max x mn = x" using False by simp_all
  ultimately show ?thesis using False
    by (simp add: insert_V.simps Let_def max_def cong: option.case_cong if_cong)
qed


lemma invar_internalI:
  assumes "\<not> u < SMALL" "0 \<le> b" "0 < width p b" "u \<le> int (length blk) * width p b"
    and "\<And>c. c \<in> set blk \<Longrightarrow> invar p c \<and> U c = width p b"
    and "invar p s" "U s = int (length blk)"
    and "elems p s = {i. 0 \<le> i \<and> i < int (length blk) \<and> min_V (blk ! nat i) \<noteq> -1}"
    and "mn = -1 \<Longrightarrow> mx = -1" "mn \<noteq> -1 \<Longrightarrow> 0 \<le> mn \<and> mn \<le> mx \<and> mx < u"
    and "\<And>y. y \<in> stored p b blk \<Longrightarrow> mn \<noteq> -1 \<and> mn < y \<and> y \<le> mx"
    and "mn \<noteq> mx \<Longrightarrow> mx \<in> stored p b blk"
  shows "invar p (V u b mn mx sm (Some s) blk)"
  using assms by auto

lemma invar_internalD:
  assumes "invar p (V u b mn mx sm summ blk)" "\<not> u < SMALL"
  shows "0 \<le> b" "0 < width p b" "u \<le> int (length blk) * width p b"
    and "\<And>c. c \<in> set blk \<Longrightarrow> invar p c \<and> U c = width p b"
    and "\<exists>s. summ = Some s \<and> invar p s \<and> U s = int (length blk) \<and>
      elems p s = {i. 0 \<le> i \<and> i < int (length blk) \<and> min_V (blk ! nat i) \<noteq> -1}"
    and "mn = -1 \<Longrightarrow> mx = -1" "mn \<noteq> -1 \<Longrightarrow> 0 \<le> mn \<and> mn \<le> mx \<and> mx < u"
    and "\<And>y. y \<in> stored p b blk \<Longrightarrow> mn \<noteq> -1 \<and> mn < y \<and> y \<le> mx"
    and "mn \<noteq> mx \<Longrightarrow> mx \<in> stored p b blk"
  using assms by (auto split: option.splits)

lemma summary_update:
  assumes "in_block blk i"
    and "elems p s = {i. 0 \<le> i \<and> i < int (length blk) \<and> min_V (blk ! nat i) \<noteq> -1}"
    and "elems p s' = (if min_V c = -1 then elems p s - {i} else elems p s \<union> {i})"
  shows "elems p s' =
    {k. 0 \<le> k \<and> k < int (length (blk[nat i := c])) \<and> min_V (blk[nat i := c] ! nat k) \<noteq> -1}"
proof -
  have "nat i = nat k \<longleftrightarrow> k = i" if "0 \<le> k" for k
    using that assms(1) by (auto simp: in_block_def)
  then show ?thesis
    using assms by (auto simp: nth_list_update in_block_def split: if_splits)
qed


lemma invar_leaf:
  "u < SMALL \<Longrightarrow>
   invar p (V u b mn mx sm summ blk) = (leaf_inv u (mn, mx, sm) \<and> summ = None \<and> blk = [])"
  by simp

declare invar.simps [simp del]

lemma insert_V_correct:
  "invar p t \<Longrightarrow> 0 \<le> x \<Longrightarrow> x < U t \<Longrightarrow> x \<notin> elems p t \<Longrightarrow>
   \<exists>t'. insert_V p t x = Some t' \<and> invar p t' \<and> U t' = U t \<and> elems p t' = elems p t \<union> {x}"
proof (induction t arbitrary: x)
  case (V u b mn mx sm summ blk)
  let ?t = "V u b mn mx sm summ blk"
  have x: "0 \<le> x" "x < u" using V.prems by simp_all
  have inv: "invar p ?t" by (rule V.prems(1))
  show ?case
  proof (cases "u < SMALL")
    case True
    have li: "leaf_inv u (mn, mx, sm)" using inv True by (simp add: invar_leaf)
    have ch: "summ = None" "blk = []" using inv True by (simp_all add: invar_leaf)
    have el: "elems p ?t = leaf_set (mn, mx, sm)" using li True by (rule elems_leaf_inv [rotated])
    show ?thesis
    proof (cases "mn = -1")
      case e: True
      have "leaf_inv u (x, x, sm)" "leaf_set (x, x, sm) = {x}"
        using leaf_insert_empty [of u mx sm x] li x e by simp_all
      moreover have "elems p ?t = {}" using invar_empty(2) [OF inv] e by simp
      ultimately show ?thesis
        using x e True ch by (simp add: insert_V_first invar_leaf elems_leaf_inv)
    next
      case e: False
      have nin: "x \<notin> leaf_set (mn, mx, sm)" using V.prems(4) el by simp
      have a: "(max x mn, min x mn) = (if x < mn then (mn, x) else (x, mn))"
        by (simp add: min_def max_def)
      have b: "max (max x mn) mx = (if max x mn > mx then max x mn else mx)"
        by (simp add: max_def)
      have "leaf_inv u (min x mn, max (max x mn) mx, sm OR push_bit (nat (max x mn)) 1)"
        "leaf_set (min x mn, max (max x mn) mx, sm OR push_bit (nat (max x mn)) 1) =
           leaf_set (mn, mx, sm) \<union> {x}"
        using leaf_insert [OF li x nin e a b] by simp_all
      then show ?thesis
        using x e True el ch by (simp add: insert_V_leaf invar_leaf elems_leaf_inv)
    qed
  next
    case False
    note d = invar_internalD [OF inv False]
    obtain s where s: "summ = Some s" "invar p s" "U s = int (length blk)"
      "elems p s = {i. 0 \<le> i \<and> i < int (length blk) \<and> min_V (blk ! nat i) \<noteq> -1}"
      using d(5) by blast
    have el: "elems p ?t = (if mn = -1 then {} else {mn}) \<union> stored p b blk"
      using inv False by (rule invar_elems_internal)
    show ?thesis
    proof (cases "mn = -1")
      case e: True
      have st: "stored p b blk = {}" using d(8) e by blast
      have "invar p (V u b x x sm (Some s) blk)"
        using False d(1-4) s(2-4) x st by (intro invar_internalI) auto
      moreover from this have "elems p (V u b x x sm (Some s) blk) = {x}"
        using False x st by (simp add: invar_elems_internal)
      ultimately show ?thesis
        using x e s(1) el st by (simp add: insert_V_first)
    next
      case e: False
      define x' where "x' = max x mn"
      define mn' where "mn' = min x mn"
      define mx' where "mx' = max x' mx"
      define w where "w = width p b"
      define i where "i = x' div w"
      define j where "j = x' mod w"
      have w: "0 < w" using d(2) by (simp add: w_def)
      have mnb: "0 \<le> mn" "mn \<le> mx" "mx < u" using d(7) e by simp_all
      have xn: "x \<noteq> mn" "x \<notin> stored p b blk" using V.prems(4) el e by auto
      have x': "0 \<le> x'" "x' < u" "mn' < x'" "x' \<notin> stored p b blk" "0 \<le> mn'"
        using x mnb xn d(8) by (auto simp: x'_def mn'_def max_def min_def)
      have ib: "in_block blk i"
        unfolding i_def w_def using x'(1,2) d(3,2) by (rule div_in_block)
      have hi: "high p b x' = i" "low p b x' = j"
        using d(2) x'(1) by (simp_all add: high_eq low_eq i_def j_def w_def)
      define c where "c = blk ! nat i"
      have cin: "c \<in> set blk" unfolding c_def using ib by (rule in_block_nth)
      have c: "invar p c" "U c = w" using d(4) [OF cin] by (simp_all add: w_def)
      have j: "0 \<le> j" "j < w" using w by (simp_all add: j_def)
      have "x' \<in> stored p b blk \<longleftrightarrow> 0 \<le> x' \<and> x' mod width p b \<in> elems p (blk ! nat i)"
        using ib d(2) by (rule stored_block) (simp add: i_def w_def)
      then have jn: "j \<notin> elems p c" using x'(1,4) by (simp add: j_def c_def w_def)
      obtain c' where c': "insert_V p c j = Some c'" "invar p c'" "U c' = w"
        "elems p c' = elems p c \<union> {j}"
        using V.IH(2) [OF cin c(1) j(1) _ jn] j(2) c(2) by auto
      have c'ne: "min_V c' \<noteq> -1"
        using c'(4) invar_min_iff [OF c'(2)] by simp
      have "\<exists>s'. (if min_V c = -1
               then (case summ of None \<Rightarrow> None | Some s \<Rightarrow> map_option Some (insert_V p s i))
               else Some summ) = Some (Some s') \<and> invar p s' \<and> U s' = int (length blk) \<and>
               elems p s' = elems p s \<union> {i}"
      proof (cases "min_V c = -1")
        case True
        then have "i \<notin> elems p s" using s(4) by (simp add: c_def)
        moreover have "0 \<le> i" "i < U s" using ib s(3) by (simp_all add: in_block_def)
        moreover have "s \<in> set_option summ" using s(1) by simp
        ultimately obtain s' where "insert_V p s i = Some s'" "invar p s'" "U s' = U s"
          "elems p s' = elems p s \<union> {i}"
          using V.IH(1) [OF _ s(2), of i] by blast
        then show ?thesis using True s(1,3) by simp
      next
        case False
        then have "i \<in> elems p s" using s(4) ib by (simp add: c_def in_block_def)
        then show ?thesis using False s by auto
      qed
      then obtain s' where s': "(if min_V c = -1
               then (case summ of None \<Rightarrow> None | Some s \<Rightarrow> map_option Some (insert_V p s i))
               else Some summ) = Some (Some s')" "invar p s'" "U s' = int (length blk)"
               "elems p s' = elems p s \<union> {i}" by blast
      define blk' where "blk' = blk[nat i := c']"
      have res: "insert_V p ?t x = Some (V u b mn' mx' sm (Some s') blk')"
        using x e False ib s'(1) c'(1)
        by (simp add: insert_V_internal Let_def hi c_def blk'_def mn'_def mx'_def
            flip: x'_def)
      have st: "stored p b blk' = stored p b blk \<union> {x'}"
        unfolding blk'_def i_def w_def
      proof (rule stored_add)
        show "in_block blk (x' div width p b)" using ib by (simp add: i_def w_def)
        show "0 < width p b" by (rule d(2))
        show "0 \<le> x'" by (rule x'(1))
        show "elems p c' = elems p (blk ! nat (x' div width p b)) \<union> {x' mod width p b}"
          using c'(4) by (simp add: c_def i_def j_def w_def)
      qed
      have len: "length blk' = length blk" by (simp add: blk'_def)
      have mx': "x' \<le> mx'" "mx \<le> mx'" "mx' < u" "mx' = x' \<or> mx' = mx"
        using x'(2) mnb by (auto simp: mx'_def max_def)
      have invt: "invar p (V u b mn' mx' sm (Some s') blk')"
      proof (rule invar_internalI)
        show "\<not> u < SMALL" by (rule False)
        show "0 \<le> b" "0 < width p b" by (rule d(1), rule d(2))
        show "u \<le> int (length blk') * width p b" using d(3) len by simp
        show "invar p k \<and> U k = width p b" if "k \<in> set blk'" for k
        proof -
          have "k = c' \<or> k \<in> set blk"
            using that set_update_subset_insert [of blk "nat i" c'] by (auto simp: blk'_def)
          then show ?thesis using c'(2,3) d(4) by (auto simp: w_def)
        qed
        show "invar p s'" by (rule s'(2))
        show "U s' = int (length blk')" using s'(3) len by simp
        show "elems p s' = {i. 0 \<le> i \<and> i < int (length blk') \<and> min_V (blk' ! nat i) \<noteq> -1}"
          unfolding blk'_def using ib s(4)
        proof (rule summary_update)
          show "elems p s' = (if min_V c' = -1 then elems p s - {i} else elems p s \<union> {i})"
            using c'ne s'(4) by simp
        qed
        show "mn' = -1 \<Longrightarrow> mx' = -1" using x'(5) by simp
        show "mn' \<noteq> -1 \<Longrightarrow> 0 \<le> mn' \<and> mn' \<le> mx' \<and> mx' < u"
          using x'(3,5) mx' by simp
        show "mn' \<noteq> -1 \<and> mn' < y \<and> y \<le> mx'" if "y \<in> stored p b blk'" for y
        proof -
          have "y = x' \<or> y \<in> stored p b blk" using that st by auto
          moreover have "mn' \<le> mn" by (simp add: mn'_def)
          ultimately show ?thesis using x'(3,5) mx'(1,2) d(8) [of y] by auto
        qed
        show "mx' \<in> stored p b blk'" if "mn' \<noteq> mx'"
        proof (cases "mx' = x'")
          case True
          then show ?thesis using st by simp
        next
          case ne: False
          then have "mx' = mx" "x' < mx" using mx' by auto
          moreover have "mn \<le> x'" by (simp add: x'_def)
          ultimately show ?thesis using d(9) st by auto
        qed
      qed
      have "elems p (V u b mn' mx' sm (Some s') blk') = {mn'} \<union> (stored p b blk \<union> {x'})"
        using invar_elems_internal [OF invt False] x'(5) st by simp
      also have "\<dots> = elems p ?t \<union> {x}"
        using el e by (auto simp: mn'_def x'_def min_def max_def)
      finally show ?thesis using res invt by simp
    qed
  qed
qed

section \<open>Successor\<close>

lemma finite_elems [simp]: "finite (elems p t)"
proof -
  have "elems p t \<subseteq> {0..<U t}" by (auto simp: elems_def)
  then show ?thesis by (rule finite_subset) simp
qed

lemma next_above_eq:
  assumes "finite S" "r \<in> S" "x < r" "\<And>y. y \<in> S \<Longrightarrow> x < y \<Longrightarrow> r \<le> y"
  shows "next_above S x = r"
proof -
  have "Min {y \<in> S. x < y} = r"
    using assms by (intro Min_eqI) auto
  moreover have "{y \<in> S. x < y} \<noteq> {}" using assms(2,3) by auto
  ultimately show ?thesis unfolding next_above_def by (simp only: if_False)
qed

lemma next_above_none: "(\<And>y. y \<in> S \<Longrightarrow> y \<le> x) \<Longrightarrow> next_above S x = -1"
  by (fastforce simp: next_above_def)

lemma next_above_cases:
  assumes "finite S"
  shows "(next_above S x = -1 \<and> (\<forall>y \<in> S. y \<le> x)) \<or>
         (next_above S x \<in> S \<and> x < next_above S x \<and> (\<forall>y \<in> S. x < y \<longrightarrow> next_above S x \<le> y))"
proof (cases "{y \<in> S. x < y} = {}")
  case True
  then show ?thesis by (fastforce simp: next_above_def)
next
  case False
  have fin: "finite {y \<in> S. x < y}" using assms by simp
  have "Min {y \<in> S. x < y} \<in> {y \<in> S. x < y}" using fin False by (rule Min_in)
  moreover have "\<forall>y \<in> {y \<in> S. x < y}. Min {y \<in> S. x < y} \<le> y" using fin by simp
  ultimately show ?thesis unfolding next_above_def using False by (simp only: if_False) blast
qed

lemma key_less_left:
  assumes "0 < (w::int)" "0 \<le> j" "j < w"
  shows "x < i * w + j \<longleftrightarrow> x div w < i \<or> (x div w = i \<and> x mod w < j)"
  using key_less_iff [OF assms(1), of x "i * w + j"] assms by (simp add: split_key)

lemma key_le_left:
  assumes "0 < (w::int)" "0 \<le> j" "j < w"
  shows "i * w + j \<le> y \<longleftrightarrow> i < y div w \<or> (y div w = i \<and> j \<le> y mod w)"
  using key_less_left [OF assms, of y i] by auto

lemma stored_key:
  assumes "in_block blk i" "0 < width p b" "0 \<le> j" "j < width p b"
  shows "i * width p b + j \<in> stored p b blk \<longleftrightarrow> j \<in> elems p (blk ! nat i)"
proof -
  have k: "(i * width p b + j) div width p b = i" "(i * width p b + j) mod width p b = j"
    using assms(2-4) by (simp_all add: split_key)
  have "0 \<le> i" using assms(1) by (simp add: in_block_def)
  then have "0 \<le> i * width p b + j" using assms(2,3) by simp
  then show ?thesis using stored_block [OF assms(1,2) k(1)] k(2) by simp
qed

lemma stored_div:
  assumes "y \<in> stored p b blk" "0 < width p b"
  shows "in_block blk (y div width p b)" "y mod width p b \<in> elems p (blk ! nat (y div width p b))"
    "0 \<le> y"
  using assms by (auto simp: stored_def in_block_def pos_imp_zdiv_nonneg_iff)

lemma successor_less: 
  "0 \<le> x \<Longrightarrow> x < u \<Longrightarrow> x < mn \<Longrightarrow> successor p (V u b mn mx sm summ blk) x = Some mn"
  by (simp add: successor.simps)

lemma successor_leaf:
  "0 \<le> x \<Longrightarrow> x < u \<Longrightarrow> \<not> x < mn \<Longrightarrow> u < SMALL \<Longrightarrow>
   successor p (V u b mn mx sm summ blk) x = Some (successor_scan u sm (x + 1))"
  by (simp add: successor.simps)

lemma successor_internal:
  "0 \<le> x \<Longrightarrow> x < u \<Longrightarrow> \<not> x < mn \<Longrightarrow> \<not> u < SMALL \<Longrightarrow>
   successor p (V u b mn mx sm summ blk) x =
     (let i = high p b x; j = low p b x in
        if \<not> in_block blk i then None
        else if j < max_V (blk ! nat i) then
          (case successor p (blk ! nat i) j of
             None \<Rightarrow> None
           | Some j \<Rightarrow> Some (index p b i j))
        else
          (case summ of
             None \<Rightarrow> None
           | Some s \<Rightarrow>
               (case successor p s i of
                  None \<Rightarrow> None
                | Some i \<Rightarrow>
                    if i \<noteq> -1 then
                      (if \<not> in_block blk i then None
                       else
                         let j = min_V (blk ! nat i) in
                         if j = -1 then None else Some (index p b i j))
                    else Some (-1))))"
  by (simp add: successor.simps)


lemma successor_correct:
  "invar p t \<Longrightarrow> 0 \<le> x \<Longrightarrow> x < U t \<Longrightarrow> successor p t x = Some (next_above (elems p t) x)"
proof (induction t arbitrary: x)
  case (V u b mn mx sm summ blk)
  let ?t = "V u b mn mx sm summ blk"
  have x: "0 \<le> x" "x < u" using V.prems by simp_all
  have inv: "invar p ?t" by (rule V.prems(1))
  show ?case
  proof (cases "x < mn")
    case True
    then have ne: "min_V ?t \<noteq> -1" using x by simp
    have "next_above (elems p ?t) x = mn"
    proof (rule next_above_eq)
      show "finite (elems p ?t)" by simp
      show "mn \<in> elems p ?t" using invar_nonempty(1) [OF inv ne] by simp
      show "x < mn" by (rule True)
      show "mn \<le> y" if "y \<in> elems p ?t" for y
        using invar_nonempty(3) [OF inv ne that] by simp
    qed
    then show ?thesis using x True by (simp add: successor_less)
  next
    case nl: False
    show ?thesis
    proof (cases "u < SMALL")
      case True
      have li: "leaf_inv u (mn, mx, sm)" using inv True by (simp add: invar_leaf)
    have ch: "summ = None" "blk = []" using inv True by (simp_all add: invar_leaf)
      have "elems p ?t = leaf_set (mn, mx, sm)" using li True by (rule elems_leaf_inv [rotated])
      then show ?thesis
        using x nl True leaf_successor [OF li x(1) nl] by (simp add: successor_leaf)
    next
      case False
      note d = invar_internalD [OF inv False]
      obtain s where s: "summ = Some s" "invar p s" "U s = int (length blk)"
        "elems p s = {i. 0 \<le> i \<and> i < int (length blk) \<and> min_V (blk ! nat i) \<noteq> -1}"
        using d(5) by blast
      have el: "elems p ?t = (if mn = -1 then {} else {mn}) \<union> stored p b blk"
        using inv False by (rule invar_elems_internal)
      define w where "w = width p b"
      define i where "i = x div w"
      define j where "j = x mod w"
      have w: "0 < w" using d(2) by (simp add: w_def)
      have ib: "in_block blk i"
        unfolding i_def w_def using x d(3,2) by (rule div_in_block)
      have hi: "high p b x = i" "low p b x = j"
        using d(2) x(1) by (simp_all add: high_eq low_eq i_def j_def w_def)
      define c where "c = blk ! nat i"
      have cin: "c \<in> set blk" unfolding c_def using ib by (rule in_block_nth)
      have c: "invar p c" "U c = w" using d(4) [OF cin] by (simp_all add: w_def)
      have j: "0 \<le> j" "j < w" using w by (simp_all add: j_def)
      have above: "y \<in> stored p b blk" if "y \<in> elems p ?t" "x < y" for y
        using that nl el by (auto split: if_splits)
      have blocks: "in_block blk (y div w)" "y mod w \<in> elems p (blk ! nat (y div w))" "0 \<le> y"
        "y div w \<in> elems p s" if "y \<in> stored p b blk" for y
      proof -
        show 1: "in_block blk (y div w)" and 2: "y mod w \<in> elems p (blk ! nat (y div w))"
          and "0 \<le> y"
          using stored_div [OF that d(2)] by (simp_all add: w_def)
        have "blk ! nat (y div w) \<in> set blk" using 1 by (rule in_block_nth)
        then have "invar p (blk ! nat (y div w))" using d(4) by blast
        then have "min_V (blk ! nat (y div w)) \<noteq> -1" using 2 invar_min_iff by blast
        then show "y div w \<in> elems p s" using 1 s(4) by (simp add: in_block_def)
      qed
      show ?thesis
      proof (cases "j < max_V c")
        case True
        have cne: "min_V c \<noteq> -1" using invar_empty(1) [OF c(1)] True j(1) by auto
        have ih: "successor p c j = Some (next_above (elems p c) j)"
          using V.IH(2) [OF cin c(1) j(1)] j(2) c(2) by simp
        define j' where "j' = next_above (elems p c) j"
        have "max_V c \<in> elems p c" using invar_nonempty(2) [OF c(1) cne] .
        then have j': "j' \<in> elems p c" "j < j'" "\<And>y. y \<in> elems p c \<Longrightarrow> j < y \<Longrightarrow> j' \<le> y"
          using next_above_cases [of "elems p c" j] True by (auto simp: j'_def)
        have j'b: "0 \<le> j'" "j' < w" using elems_bounds [OF j'(1)] c(2) by simp_all
        have idx: "index p b i j' = i * w + j'"
          using j'b by (simp add: index_eq w_def)
        have "next_above (elems p ?t) x = i * w + j'"
        proof (rule next_above_eq)
          show "finite (elems p ?t)" by simp
          have "i * w + j' \<in> stored p b blk"
            using stored_key [OF ib d(2), of j'] j'b j'(1) by (simp add: w_def c_def)
          then show "i * w + j' \<in> elems p ?t" using el by simp
          show "x < i * w + j'"
            using key_less_left [OF w j'b, of x i] j'(2) by (simp add: i_def j_def)
          show "i * w + j' \<le> y" if "y \<in> elems p ?t" "x < y" for y
          proof -
            have st: "y \<in> stored p b blk" using that by (rule above)
            have "i < y div w \<or> (i = y div w \<and> j < y mod w)"
              using key_less_iff [OF w, of x y] that(2) by (simp add: i_def j_def)
            then show ?thesis
            proof
              assume "i < y div w"
              then show ?thesis using key_le_left [OF w j'b, of i y] by simp
            next
              assume a: "i = y div w \<and> j < y mod w"
              then have "y mod w \<in> elems p c" using blocks(2) [OF st] by (simp add: c_def)
              then have "j' \<le> y mod w" using a j'(3) by simp
              then show ?thesis using key_le_left [OF w j'b, of i y] a by simp
            qed
          qed
        qed
        then show ?thesis
          using x nl False ib True ih idx
          by (simp add: successor_internal hi Let_def flip: c_def j'_def)
      next
        case nj: False
        have cle: "y \<le> j" if "y \<in> elems p c" for y
        proof -
          have "min_V c \<noteq> -1" using that invar_min_iff [OF c(1)] by auto
          then show ?thesis using invar_nonempty(3) [OF c(1) _ that] nj by simp
        qed
        have ih: "successor p s i = Some (next_above (elems p s) i)"
        proof -
          have "s \<in> set_option summ" using s(1) by simp
          moreover have "0 \<le> i" "i < U s" using ib s(3) by (simp_all add: in_block_def)
          ultimately show ?thesis using V.IH(1) s(2) by blast
        qed
        define i' where "i' = next_above (elems p s) i"
        have later: "i < y div w" if "y \<in> elems p ?t" "x < y" for y
        proof -
          have st: "y \<in> stored p b blk" using that by (rule above)
          have "i < y div w \<or> (i = y div w \<and> j < y mod w)"
            using key_less_iff [OF w, of x y] that(2) by (simp add: i_def j_def)
          moreover have "\<not> (i = y div w \<and> j < y mod w)"
            using blocks(2) [OF st] cle [of "y mod w"] by (auto simp: c_def)
          ultimately show ?thesis by simp
        qed
        show ?thesis
        proof (cases "i' = -1")
          case True
          then have none: "\<forall>k \<in> elems p s. k \<le> i"
            using next_above_cases [of "elems p s" i] ib
            by (auto simp: i'_def in_block_def)
          have "next_above (elems p ?t) x = -1"
          proof (rule next_above_none)
            fix y assume y: "y \<in> elems p ?t"
            show "y \<le> x"
            proof (rule ccontr)
              assume "\<not> y \<le> x"
              then have "x < y" by simp
              then have "i < y div w" "y \<in> stored p b blk" using y later above by simp_all
              then show False using blocks(4) [of y] none by auto
            qed
          qed
          then show ?thesis
            using x nl False ib nj ih True s(1)
            by (simp add: successor_internal hi Let_def flip: c_def i'_def)
        next
          case ne: False
          then have i': "i' \<in> elems p s" "i < i'" "\<And>k. k \<in> elems p s \<Longrightarrow> i < k \<Longrightarrow> i' \<le> k"
            using next_above_cases [of "elems p s" i] by (auto simp: i'_def)
          have ib': "in_block blk i'" using i'(1) s(4) by (simp add: in_block_def)
          define c2 where "c2 = blk ! nat i'"
          have c2in: "c2 \<in> set blk" unfolding c2_def using ib' by (rule in_block_nth)
          have c2: "invar p c2" "U c2 = w" using d(4) [OF c2in] by (simp_all add: w_def)
          have c2ne: "min_V c2 \<noteq> -1" using i'(1) s(4) by (simp add: c2_def)
          define j2 where "j2 = min_V c2"
          have j2: "j2 \<in> elems p c2" "\<And>y. y \<in> elems p c2 \<Longrightarrow> j2 \<le> y"
            using invar_nonempty(1,3) [OF c2(1) c2ne] by (simp_all add: j2_def)
          have j2b: "0 \<le> j2" "j2 < w" using elems_bounds [OF j2(1)] c2(2) by simp_all
          have idx: "index p b i' j2 = i' * w + j2"
            using j2b by (simp add: index_eq w_def)
          have "next_above (elems p ?t) x = i' * w + j2"
          proof (rule next_above_eq)
            show "finite (elems p ?t)" by simp
            have "i' * w + j2 \<in> stored p b blk"
              using stored_key [OF ib' d(2), of j2] j2b j2(1) by (simp add: w_def c2_def)
            then show "i' * w + j2 \<in> elems p ?t" using el by simp
            show "x < i' * w + j2"
              using key_less_left [OF w j2b, of x i'] i'(2) by (simp add: i_def)
            show "i' * w + j2 \<le> y" if "y \<in> elems p ?t" "x < y" for y
            proof -
              have st: "y \<in> stored p b blk" using that by (rule above)
              have "i < y div w" using that by (rule later)
              then have le: "i' \<le> y div w" using i'(3) blocks(4) [OF st] by simp
              show ?thesis
              proof (cases "i' = y div w")
                case True
                then have "y mod w \<in> elems p c2" using blocks(2) [OF st] by (simp add: c2_def)
                then have "j2 \<le> y mod w" by (rule j2(2))
                then show ?thesis using key_le_left [OF w j2b, of i' y] True by simp
              next
                case False
                then show ?thesis using key_le_left [OF w j2b, of i' y] le by simp
              qed
            qed
          qed
          then show ?thesis
            using x nl False ib nj ih ne s(1) ib' c2ne idx
            by (simp add: successor_internal hi Let_def flip: c_def i'_def c2_def j2_def)
        qed
      qed
    qed
  qed
qed

section \<open>Erasure\<close>

text \<open>
  The part of \<^verbatim>\<open>V::erase\<close> at an internal node after the \<^verbatim>\<open>if (x == min)\<close>
  block, as it stands in the definition of \<open>erase\<close>.
\<close>

definition erase_tail ::
  "policy \<Rightarrow> int \<Rightarrow> int \<Rightarrow> int \<Rightarrow> V option \<Rightarrow> V list \<Rightarrow> int \<Rightarrow> int \<Rightarrow> int \<Rightarrow> V option"
  where
  "erase_tail p u b sm summ blk mx x mn =
     (let h = high p b x in
      if \<not> in_block blk h then None
      else
        (case erase p (blk ! nat h) (low p b x) of
           None \<Rightarrow> None
         | Some blk_h \<Rightarrow>
             let blk = blk[nat h := blk_h] in
             (case (if min_V blk_h = -1
                    then (case summ of None \<Rightarrow> None
                          | Some s \<Rightarrow> map_option Some (erase p s h))
                    else Some summ) of
                None \<Rightarrow> None
              | Some summ \<Rightarrow>
                  (case erase_max p b mn mx summ blk x of
                     None \<Rightarrow> None
                   | Some mx \<Rightarrow> Some (V u b mn mx sm summ blk)))))"

lemma erase_leaf_node:
  "0 \<le> x \<Longrightarrow> x < u \<Longrightarrow> u < SMALL \<Longrightarrow>
   erase p (V u b mn mx sm summ blk) x =
     (case erase_leaf u (mn, mx, sm) x of (mn, mx, sm) \<Rightarrow> Some (V u b mn mx sm summ blk))"
  by (simp add: erase.simps)

lemma erase_internal:
  "0 \<le> x \<Longrightarrow> x < u \<Longrightarrow> \<not> u < SMALL \<Longrightarrow>
   erase p (V u b mn mx sm summ blk) x =
     (case erase_min p (V u b mn mx sm summ blk) x of
        None \<Rightarrow> None
      | Some (Inl _) \<Rightarrow> Some (V u b (-1) (-1) sm summ blk)
      | Some (Inr (x, mn)) \<Rightarrow> erase_tail p u b sm summ blk mx x mn)"
  by (simp add: erase.simps erase_tail_def split: option.split sum.split prod.split)

lemma invar_max_iff: "invar p t \<Longrightarrow> (max_V t = -1) = (elems p t = {})"
proof (cases "min_V t = -1")
  case True
  assume "invar p t"
  then show ?thesis using True invar_empty by blast
next
  case False
  assume inv: "invar p t"
  have "max_V t \<in> elems p t" using inv False by (rule invar_nonempty(2))
  then have "0 \<le> max_V t" "elems p t \<noteq> {}" using elems_bounds by auto
  then show ?thesis by auto
qed


lemma stored_summary:
  assumes "y \<in> stored p b blk" "0 < width p b"
    and "\<And>c. c \<in> set blk \<Longrightarrow> invar p c \<and> U c = width p b"
    and "elems p s = {i. 0 \<le> i \<and> i < int (length blk) \<and> min_V (blk ! nat i) \<noteq> -1}"
  shows "y div width p b \<in> elems p s"
proof -
  note sd = stored_div [OF assms(1,2)]
  have "blk ! nat (y div width p b) \<in> set blk" using sd(1) by (rule in_block_nth)
  then have "invar p (blk ! nat (y div width p b))" using assms(3) by blast
  then have "min_V (blk ! nat (y div width p b)) \<noteq> -1" using sd(2) invar_min_iff by blast
  then show ?thesis using sd(1) assms(4) by (simp add: in_block_def)
qed

lemma erase_tail_correct:
  assumes sh: "\<not> u < SMALL" "0 \<le> b" "0 < width p b" "u \<le> int (length blk) * width p b"
      "\<And>c. c \<in> set blk \<Longrightarrow> invar p c \<and> U c = width p b"
    and s: "invar p s" "U s = int (length blk)"
      "elems p s = {i. 0 \<le> i \<and> i < int (length blk) \<and> min_V (blk ! nat i) \<noteq> -1}"
    and x: "x \<in> stored p b blk"
    and mn: "0 \<le> mn" "mn \<le> x" "\<And>y. y \<in> stored p b blk \<Longrightarrow> y \<noteq> x \<Longrightarrow> mn < y"
    and mx: "mx < u" "\<And>y. y \<in> stored p b blk \<Longrightarrow> y \<le> mx" "mx \<in> stored p b blk"
    and ihc: "\<And>c l. c \<in> set blk \<Longrightarrow> l \<in> elems p c \<Longrightarrow>
      \<exists>c'. erase p c l = Some c' \<and> invar p c' \<and> U c' = U c \<and> elems p c' = elems p c - {l}"
    and ihs: "\<And>h. h \<in> elems p s \<Longrightarrow>
      \<exists>s'. erase p s h = Some s' \<and> invar p s' \<and> U s' = U s \<and> elems p s' = elems p s - {h}"
  shows "\<exists>t'. erase_tail p u b sm (Some s) blk mx x mn = Some t' \<and> invar p t' \<and> U t' = u \<and>
    elems p t' = {mn} \<union> (stored p b blk - {x})"
proof -
  define w where "w = width p b"
  define h where "h = x div w"
  define l where "l = x mod w"
  have w: "0 < w" using sh(3) by (simp add: w_def)
  note sd = stored_div [OF x sh(3)]
  have ib: "in_block blk h" using sd(1) by (simp add: h_def w_def)
  have hi: "high p b x = h" "low p b x = l"
    using sh(3) sd(3) by (simp_all add: high_eq low_eq h_def l_def w_def)
  define c where "c = blk ! nat h"
  have cin: "c \<in> set blk" unfolding c_def using ib by (rule in_block_nth)
  have c: "invar p c" "U c = w" using sh(5) [OF cin] by (simp_all add: w_def)
  have lc: "l \<in> elems p c" using sd(2) by (simp add: l_def c_def h_def w_def)
  obtain c' where c': "erase p c l = Some c'" "invar p c'" "U c' = w"
    "elems p c' = elems p c - {l}"
    using ihc [OF cin lc] c(2) by auto
  have hs: "h \<in> elems p s"
    using stored_summary [OF x sh(3) sh(5) s(3)] by (simp add: h_def w_def)
  have "\<exists>s'. (if min_V c' = -1
           then (case Some s of None \<Rightarrow> None | Some s \<Rightarrow> map_option Some (erase p s h))
           else Some (Some s)) = Some (Some s') \<and> invar p s' \<and> U s' = int (length blk) \<and>
           elems p s' = (if min_V c' = -1 then elems p s - {h} else elems p s \<union> {h})"
  proof (cases "min_V c' = -1")
    case True
    obtain s' where "erase p s h = Some s'" "invar p s'" "U s' = U s"
      "elems p s' = elems p s - {h}"
      using ihs [OF hs] by blast
    then show ?thesis using True s(2) by simp
  next
    case False
    then show ?thesis using s hs by auto
  qed
  then obtain s' where s': "(if min_V c' = -1
           then (case Some s of None \<Rightarrow> None | Some s \<Rightarrow> map_option Some (erase p s h))
           else Some (Some s)) = Some (Some s')" "invar p s'" "U s' = int (length blk)"
     "elems p s' = (if min_V c' = -1 then elems p s - {h} else elems p s \<union> {h})" by blast
  define blk' where "blk' = blk[nat h := c']"
  have len: "length blk' = length blk" by (simp add: blk'_def)
  have st: "stored p b blk' = stored p b blk - {x}"
    unfolding blk'_def h_def w_def
  proof (rule stored_remove)
    show "in_block blk (x div width p b)" by (rule sd(1))
    show "0 < width p b" by (rule sh(3))
    show "0 \<le> x" by (rule sd(3))
    show "elems p c' = elems p (blk ! nat (x div width p b)) - {x mod width p b}"
      using c'(4) by (simp add: c_def h_def l_def w_def)
  qed
  have blk': "invar p k \<and> U k = width p b" if "k \<in> set blk'" for k
  proof -
    have "k = c' \<or> k \<in> set blk"
      using that set_update_subset_insert [of blk "nat h" c'] by (auto simp: blk'_def)
    then show ?thesis using c'(2,3) sh(5) by (auto simp: w_def)
  qed
  have sum': "elems p s' = {i. 0 \<le> i \<and> i < int (length blk') \<and> min_V (blk' ! nat i) \<noteq> -1}"
    unfolding blk'_def using ib s(3) s'(4) by (rule summary_update)
  have "\<exists>mx'. erase_max p b mn mx (Some s') blk' x = Some mx' \<and> mn \<le> mx' \<and> mx' \<le> mx \<and>
    (\<forall>y \<in> stored p b blk'. y \<le> mx') \<and> (mn \<noteq> mx' \<longrightarrow> mx' \<in> stored p b blk')"
  proof (cases "x = mx")
    case False
    then have "mx \<in> stored p b blk'" using st mx(3) by simp
    moreover have "mn \<le> mx" using mn(2) mx(2) [OF x] by simp
    ultimately show ?thesis using False mx(2) st by (simp add: erase_max_def)
  next
    case True
    show ?thesis
    proof (cases "max_V s' = -1")
      case e: True
      then have "elems p s' = {}" using invar_max_iff [OF s'(2)] by simp
      then have "stored p b blk' = {}"
        using stored_summary [OF _ sh(3) blk' sum'] by blast
      then show ?thesis using True e mn(2) by (simp add: erase_max_def)
    next
      case e: False
      define i2 where "i2 = max_V s'"
      have sne: "min_V s' \<noteq> -1" using e invar_empty(1) [OF s'(2)] by blast
      have i2: "i2 \<in> elems p s'" "\<And>k. k \<in> elems p s' \<Longrightarrow> k \<le> i2"
        using invar_nonempty(2,3) [OF s'(2) sne] by (simp_all add: i2_def)
      have ib2: "in_block blk' i2" using i2(1) sum' by (simp add: in_block_def)
      define c2 where "c2 = blk' ! nat i2"
      have c2in: "c2 \<in> set blk'" unfolding c2_def using ib2 by (rule in_block_nth)
      have c2: "invar p c2" "U c2 = w" using blk' [OF c2in] by (simp_all add: w_def)
      have c2ne: "min_V c2 \<noteq> -1" using i2(1) sum' by (simp add: c2_def)
      define j2 where "j2 = max_V c2"
      have j2: "j2 \<in> elems p c2" "\<And>y. y \<in> elems p c2 \<Longrightarrow> y \<le> j2"
        using invar_nonempty(2,3) [OF c2(1) c2ne] by (simp_all add: j2_def)
      have j2b: "0 \<le> j2" "j2 < w" using elems_bounds [OF j2(1)] c2(2) by simp_all
      have idx: "index p b i2 j2 = i2 * w + j2"
        using j2b by (simp add: index_eq w_def)
      have in': "i2 * w + j2 \<in> stored p b blk'"
        using stored_key [OF ib2 sh(3), of j2] j2b j2(1) by (simp add: w_def c2_def)
      have top: "y \<le> i2 * w + j2" if "y \<in> stored p b blk'" for y
      proof -
        note yd = stored_div [OF that sh(3)]
        have "y div w \<le> i2"
          using stored_summary [OF that sh(3) blk' sum'] i2(2) by (simp add: w_def)
        moreover have "y mod w \<le> j2" if "y div w = i2"
          using yd(2) that j2(2) by (simp add: c2_def w_def)
        ultimately have "\<not> (i2 < y div w \<or> (y div w = i2 \<and> j2 < y mod w))" by auto
        then have "\<not> i2 * w + j2 < y"
          using key_less_iff [OF w, of "i2 * w + j2" y] j2b w by (auto simp: split_key)
        then show ?thesis by simp
      qed
      have "i2 * w + j2 \<in> stored p b blk" "i2 * w + j2 \<noteq> x" using in' st by auto
      then have "mn < i2 * w + j2" "i2 * w + j2 \<le> mx" using mn(3) mx(2) by simp_all
      then show ?thesis
        using True e ib2 idx in' top
        by (simp add: erase_max_def Let_def flip: i2_def c2_def j2_def)
    qed
  qed
  then obtain mx' where mx': "erase_max p b mn mx (Some s') blk' x = Some mx'" "mn \<le> mx'"
    "mx' \<le> mx" "\<And>y. y \<in> stored p b blk' \<Longrightarrow> y \<le> mx'"
    "mn \<noteq> mx' \<Longrightarrow> mx' \<in> stored p b blk'" by blast
  have res: "erase_tail p u b sm (Some s) blk mx x mn = Some (V u b mn mx' sm (Some s') blk')"
    using ib c'(1) s'(1) mx'(1)
    by (simp add: erase_tail_def Let_def hi flip: c_def blk'_def)
  have invt: "invar p (V u b mn mx' sm (Some s') blk')"
  proof (rule invar_internalI)
    show "\<not> u < SMALL" "0 \<le> b" "0 < width p b" by (rule sh(1), rule sh(2), rule sh(3))
    show "u \<le> int (length blk') * width p b" using sh(4) len by simp
    show "invar p k \<and> U k = width p b" if "k \<in> set blk'" for k using that by (rule blk')
    show "invar p s'" by (rule s'(2))
    show "U s' = int (length blk')" using s'(3) len by simp
    show "elems p s' = {i. 0 \<le> i \<and> i < int (length blk') \<and> min_V (blk' ! nat i) \<noteq> -1}"
      by (rule sum')
    show "mn = -1 \<Longrightarrow> mx' = -1" using mn(1) by simp
    show "mn \<noteq> -1 \<Longrightarrow> 0 \<le> mn \<and> mn \<le> mx' \<and> mx' < u" using mn(1) mx'(2,3) mx(1) by simp
    show "mn \<noteq> -1 \<and> mn < y \<and> y \<le> mx'" if "y \<in> stored p b blk'" for y
      using that st mn(1) mn(3) [of y] mx'(4) [of y] by auto
    show "mn \<noteq> mx' \<Longrightarrow> mx' \<in> stored p b blk'" by (rule mx'(5))
  qed
  have "elems p (V u b mn mx' sm (Some s') blk') = {mn} \<union> (stored p b blk - {x})"
    using invar_elems_internal [OF invt sh(1)] mn(1) st by simp
  then show ?thesis using res invt by simp
qed


lemma erase_correct:
  "invar p t \<Longrightarrow> x \<in> elems p t \<Longrightarrow>
   \<exists>t'. erase p t x = Some t' \<and> invar p t' \<and> U t' = U t \<and> elems p t' = elems p t - {x}"
proof (induction t arbitrary: x)
  case (V u b mn mx sm summ blk)
  let ?t = "V u b mn mx sm summ blk"
  have x: "0 \<le> x" "x < u" using elems_bounds [OF V.prems(2)] by simp_all
  have inv: "invar p ?t" by (rule V.prems(1))
  show ?case
  proof (cases "u < SMALL")
    case True
    have li: "leaf_inv u (mn, mx, sm)" using inv True by (simp add: invar_leaf)
    have ch: "summ = None" "blk = []" using inv True by (simp_all add: invar_leaf)
    have el: "elems p ?t = leaf_set (mn, mx, sm)" using li True by (rule elems_leaf_inv [rotated])
    obtain mn' mx' sm' where r: "erase_leaf u (mn, mx, sm) x = (mn', mx', sm')"
      by (cases "erase_leaf u (mn, mx, sm) x")
    have "leaf_inv u (mn', mx', sm')" "leaf_set (mn', mx', sm') = leaf_set (mn, mx, sm) - {x}"
      using leaf_erase [OF li, of x] V.prems(2) el r by simp_all
    then show ?thesis
      using x True r el ch by (simp add: erase_leaf_node invar_leaf elems_leaf_inv)
  next
    case False
    note d = invar_internalD [OF inv False]
    obtain s where s: "summ = Some s" "invar p s" "U s = int (length blk)"
      "elems p s = {i. 0 \<le> i \<and> i < int (length blk) \<and> min_V (blk ! nat i) \<noteq> -1}"
      using d(5) by blast
    have mn: "mn \<noteq> -1" using invar_min_iff [OF inv] V.prems(2) by auto
    then have mnb: "0 \<le> mn" "mn \<le> mx" "mx < u" using d(7) by simp_all
    have el: "elems p ?t = {mn} \<union> stored p b blk"
      using invar_elems_internal [OF inv False] mn by simp
    have nst: "mn \<notin> stored p b blk" using d(8) by blast
    define w where "w = width p b"
    have w: "0 < w" using d(2) by (simp add: w_def)
    have ihc: "\<exists>c'. erase p c l = Some c' \<and> invar p c' \<and> U c' = U c \<and> elems p c' = elems p c - {l}"
      if "c \<in> set blk" "l \<in> elems p c" for c l
      using V.IH(2) [OF that(1) _ that(2)] d(4) [OF that(1)] by simp
    have ihs: "\<exists>s'. erase p s h = Some s' \<and> invar p s' \<and> U s' = U s \<and> elems p s' = elems p s - {h}"
      if "h \<in> elems p s" for h
      using V.IH(1) [OF _ s(2) that] s(1) by simp
    have tail: "\<exists>t'. erase_tail p u b sm (Some s) blk mx y m = Some t' \<and> invar p t' \<and> U t' = u \<and>
      elems p t' = {m} \<union> (stored p b blk - {y})"
      if "y \<in> stored p b blk" "0 \<le> m" "m \<le> y" "\<And>z. z \<in> stored p b blk \<Longrightarrow> z \<noteq> y \<Longrightarrow> m < z"
      for y m
    proof (rule erase_tail_correct [OF False d(1-3) d(4) s(2-4) that(1-3)])
      show "m < z" if "z \<in> stored p b blk" "z \<noteq> y" for z using that by (rule \<open>\<And>z. z \<in> stored p b blk \<Longrightarrow> z \<noteq> y \<Longrightarrow> m < z\<close>)
      show "mx < u" by (rule mnb(3))
      show "z \<le> mx" if "z \<in> stored p b blk" for z using d(8) [OF that] by simp
      have "mn \<noteq> mx" using d(8) [OF that(1)] by auto
      then show "mx \<in> stored p b blk" by (rule d(9))
      show "\<exists>c'. erase p c l = Some c' \<and> invar p c' \<and> U c' = U c \<and> elems p c' = elems p c - {l}"
        if "c \<in> set blk" "l \<in> elems p c" for c l using that by (rule ihc)
      show "\<exists>s'. erase p s h = Some s' \<and> invar p s' \<and> U s' = U s \<and> elems p s' = elems p s - {h}"
        if "h \<in> elems p s" for h using that by (rule ihs)
    qed
    show ?thesis
    proof (cases "x = mn")
      case True
      show ?thesis
      proof (cases "min_V s = -1")
        case e: True
        then have "elems p s = {}" using invar_min_iff [OF s(2)] by simp
        then have st: "stored p b blk = {}"
          using stored_summary [OF _ d(2) d(4) s(4)] by blast
        have r: "erase p ?t x = Some (V u b (-1) (-1) sm (Some s) blk)"
          using x False True e s(1) by (simp add: erase_internal erase_min_def)
        have "invar p (V u b (-1) (-1) sm (Some s) blk)"
          using False d(1-4) s(2-4) st by (intro invar_internalI) auto
        moreover from this have "elems p (V u b (-1) (-1) sm (Some s) blk) = {}"
          using False st by (simp add: invar_elems_internal)
        ultimately show ?thesis using r el st True by simp
      next
        case e: False
        define i0 where "i0 = min_V s"
        have i0: "i0 \<in> elems p s" "\<And>k. k \<in> elems p s \<Longrightarrow> i0 \<le> k"
          using invar_nonempty(1,3) [OF s(2) e] by (simp_all add: i0_def)
        have ib0: "in_block blk i0" using i0(1) s(4) by (simp add: in_block_def)
        define c0 where "c0 = blk ! nat i0"
        have c0in: "c0 \<in> set blk" unfolding c0_def using ib0 by (rule in_block_nth)
        have c0: "invar p c0" "U c0 = w" using d(4) [OF c0in] by (simp_all add: w_def)
        have c0ne: "min_V c0 \<noteq> -1" using i0(1) s(4) by (simp add: c0_def)
        define j0 where "j0 = min_V c0"
        have j0: "j0 \<in> elems p c0" "\<And>y. y \<in> elems p c0 \<Longrightarrow> j0 \<le> y"
          using invar_nonempty(1,3) [OF c0(1) c0ne] by (simp_all add: j0_def)
        have j0b: "0 \<le> j0" "j0 < w" using elems_bounds [OF j0(1)] c0(2) by simp_all
        define y0 where "y0 = i0 * w + j0"
        have idx: "index p b i0 j0 = y0"
          using j0b by (simp add: index_eq w_def y0_def)
        have y0in: "y0 \<in> stored p b blk"
          using stored_key [OF ib0 d(2), of j0] j0b j0(1) by (simp add: w_def c0_def y0_def)
        have least: "y0 \<le> z" if "z \<in> stored p b blk" for z
        proof -
          note zd = stored_div [OF that d(2)]
          have "i0 \<le> z div w"
            using stored_summary [OF that d(2) d(4) s(4)] i0(2) by (simp add: w_def)
          moreover have "j0 \<le> z mod w" if "z div w = i0"
            using zd(2) that j0(2) by (simp add: c0_def w_def)
          ultimately show ?thesis
            using key_le_left [OF w j0b, of i0 z] by (auto simp: y0_def)
        qed
        have r: "erase p ?t x = erase_tail p u b sm (Some s) blk mx y0 y0"
          using x False True e s(1) ib0 idx
          by (simp add: erase_internal erase_min_def Let_def flip: i0_def c0_def j0_def)
        have "0 \<le> y0" using stored_div(3) [OF y0in d(2)] .
        moreover have "y0 < z" if "z \<in> stored p b blk" "z \<noteq> y0" for z
          using least [OF that(1)] that(2) by simp
        ultimately obtain t' where "erase_tail p u b sm (Some s) blk mx y0 y0 = Some t'"
          "invar p t'" "U t' = u" "elems p t' = {y0} \<union> (stored p b blk - {y0})"
          using tail [OF y0in, of y0] by auto
        moreover have "{y0} \<union> (stored p b blk - {y0}) = elems p ?t - {x}"
          using el True nst y0in by auto
        ultimately show ?thesis using r by simp
      qed
    next
      case False
      then have xin: "x \<in> stored p b blk" using V.prems(2) el by simp
      have r: "erase p ?t x = erase_tail p u b sm (Some s) blk mx x mn"
        using x \<open>\<not> u < SMALL\<close> False s(1) by (simp add: erase_internal erase_min_def)
      have "mn \<le> x" "\<And>z. z \<in> stored p b blk \<Longrightarrow> mn < z" using d(8) [OF xin] d(8) by simp_all
      then obtain t' where "erase_tail p u b sm (Some s) blk mx x mn = Some t'"
          "invar p t'" "U t' = u" "elems p t' = {mn} \<union> (stored p b blk - {x})"
        using tail [OF xin mnb(1), of ] by blast
      moreover have "{mn} \<union> (stored p b blk - {x}) = elems p ?t - {x}"
        using el False by auto
      ultimately show ?thesis using r by simp
    qed
  qed
qed

lemma erase_absent:
  "invar p t \<Longrightarrow> 0 \<le> x \<Longrightarrow> x < U t \<Longrightarrow> x \<notin> elems p t \<Longrightarrow> erase p t x = Some t"
proof (induction t arbitrary: x)
  case (V u b mn mx sm summ blk)
  let ?t = "V u b mn mx sm summ blk"
  have x: "0 \<le> x" "x < u" using V.prems by simp_all
  have inv: "invar p ?t" by (rule V.prems(1))
  show ?case
  proof (cases "u < SMALL")
    case True
    have li: "leaf_inv u (mn, mx, sm)" using inv True by (simp add: invar_leaf)
    have ch: "summ = None" "blk = []" using inv True by (simp_all add: invar_leaf)
    have el: "elems p ?t = leaf_set (mn, mx, sm)" using li True by (rule elems_leaf_inv [rotated])
    have "erase_leaf u (mn, mx, sm) x = (mn, mx, sm)"
      using li x(1) V.prems(4) el by (intro leaf_erase_absent) simp_all
    then show ?thesis using x True by (simp add: erase_leaf_node)
  next
    case False
    note d = invar_internalD [OF inv False]
    obtain s where s: "summ = Some s" "invar p s" "U s = int (length blk)"
      "elems p s = {i. 0 \<le> i \<and> i < int (length blk) \<and> min_V (blk ! nat i) \<noteq> -1}"
      using d(5) by blast
    have el: "elems p ?t = (if mn = -1 then {} else {mn}) \<union> stored p b blk"
      using inv False by (rule invar_elems_internal)
    have xmn: "x \<noteq> mn" using V.prems(4) el x(1) by auto
    have xmx: "x \<noteq> mx"
    proof (cases "mn = -1")
      case True
      then show ?thesis using d(6) x(1) by auto
    next
      case ne: False
      then have "mx \<in> elems p ?t" using invar_nonempty(2) [OF inv] by simp
      then show ?thesis using V.prems(4) by auto
    qed
    have xst: "x \<notin> stored p b blk" using V.prems(4) el by simp
    define w where "w = width p b"
    define h where "h = x div w"
    define l where "l = x mod w"
    have w: "0 < w" using d(2) by (simp add: w_def)
    have ib: "in_block blk h"
      unfolding h_def w_def using x d(3,2) by (rule div_in_block)
    have hi: "high p b x = h" "low p b x = l"
      using d(2) x(1) by (simp_all add: high_eq low_eq h_def l_def w_def)
    define c where "c = blk ! nat h"
    have cin: "c \<in> set blk" unfolding c_def using ib by (rule in_block_nth)
    have c: "invar p c" "U c = w" using d(4) [OF cin] by (simp_all add: w_def)
    have l: "0 \<le> l" "l < w" using w by (simp_all add: l_def)
    have "x \<in> stored p b blk \<longleftrightarrow> 0 \<le> x \<and> x mod width p b \<in> elems p (blk ! nat h)"
      using ib d(2) by (rule stored_block) (simp add: h_def w_def)
    then have ln: "l \<notin> elems p c" using x(1) xst by (simp add: l_def c_def w_def)
    have ec: "erase p c l = Some c"
      using V.IH(2) [OF cin c(1) l(1) _ ln] l(2) c(2) by simp
    have upd: "blk[nat h := c] = blk" by (simp add: c_def)
    have es: "(if min_V c = -1
           then (case summ of None \<Rightarrow> None | Some s \<Rightarrow> map_option Some (erase p s h))
           else Some summ) = Some summ"
    proof (cases "min_V c = -1")
      case True
      then have "h \<notin> elems p s" using s(4) by (simp add: c_def)
      moreover have "0 \<le> h" "h < U s" using ib s(3) by (simp_all add: in_block_def)
      moreover have "s \<in> set_option summ" using s(1) by simp
      ultimately have "erase p s h = Some s" using V.IH(1) s(2) by blast
      then show ?thesis using True s(1) by simp
    next
      case False
      then show ?thesis by simp
    qed
    have "erase_tail p u b sm summ blk mx x mn = Some ?t"
      using ib ec es xmx upd
      by (simp add: erase_tail_def Let_def hi erase_max_def flip: c_def)
    then show ?thesis
      using x False xmn by (simp add: erase_internal erase_min_def)
  qed
qed

section \<open>Fresh trees and runs\<close>

lemma leaf_inv_empty: "leaf_inv u (-1, -1, 0)"
  by (simp add: leaf_inv_def)

lemma invar_fresh_internal:
  assumes "\<not> u < SMALL" "0 \<le> b" "0 < width p b" "u \<le> int n * width p b"
    and "invar p c" "U c = width p b" "min_V c = -1"
    and "invar p s" "U s = int n" "min_V s = -1"
  shows "invar p (V u b (-1) (-1) 0 (Some s) (replicate n c))"
proof (rule invar_internalI)
  have es: "elems p s = {}" using assms(8,10) by (rule invar_empty(2))
  have ec: "elems p c = {}" using assms(5,7) by (rule invar_empty(2))
  show "elems p s = {i. 0 \<le> i \<and> i < int (length (replicate n c)) \<and>
      min_V (replicate n c ! nat i) \<noteq> -1}"
    using es assms(7) by auto
  show "- 1 \<noteq> - 1 \<and> - 1 < y \<and> y \<le> - 1" if "y \<in> stored p b (replicate n c)" for y
  proof -
    note sd = stored_div [OF that assms(3)]
    have "nat (y div width p b) < n" using in_block_nat [OF sd(1)] by simp
    then show ?thesis using sd(2) ec by simp
  qed
qed (use assms in auto)

lemma V_pow2_fresh:
  "0 \<le> bits \<Longrightarrow> invar Pow2 (V_pow2 bits) \<and> U (V_pow2 bits) = 2 ^ nat bits \<and>
     min_V (V_pow2 bits) = -1"
proof (induction "nat bits" arbitrary: bits rule: less_induct)
  case less
  define u :: int where "u = 2 ^ nat bits"
  define b where "b = bits div 2"
  define b2 where "b2 = (bits + 1) div 2"
  show ?case
  proof (cases "SMALL \<le> u")
    case False
    then have "V_pow2 bits = V u b (-1) (-1) 0 None []"
      by (subst V_pow2.simps) (simp add: u_def b_def drop_bit_eq_div)
    then show ?thesis using False by (simp add: invar_leaf leaf_inv_empty u_def)
  next
    case True
    then have b5: "5 \<le> bits" using pow2_ge_SMALL [of bits] by (simp add: u_def)
    have eq: "V_pow2 bits =
      V u b (-1) (-1) 0 (Some (V_pow2 b2)) (replicate (nat (2 ^ nat b2)) (V_pow2 b))"
      using True by (subst V_pow2.simps) (simp add: u_def b_def b2_def drop_bit_eq_div Let_def)
    have b: "0 \<le> b" "nat b < nat bits" and b2: "0 \<le> b2" "nat b2 < nat bits"
      and sum: "nat b2 + nat b = nat bits"
      using b5 by (simp_all add: b_def b2_def)
    have ihb: "invar Pow2 (V_pow2 b)" "U (V_pow2 b) = 2 ^ nat b" "min_V (V_pow2 b) = -1"
      using less.hyps [OF b(2) b(1)] by simp_all
    have ihs: "invar Pow2 (V_pow2 b2)" "U (V_pow2 b2) = 2 ^ nat b2" "min_V (V_pow2 b2) = -1"
      using less.hyps [OF b2(2) b2(1)] by simp_all
    have "u = 2 ^ nat b2 * 2 ^ nat b" unfolding u_def sum [symmetric] by (rule power_add)
    then have "invar Pow2 (V u b (-1) (-1) 0 (Some (V_pow2 b2))
        (replicate (nat (2 ^ nat b2)) (V_pow2 b)))"
      using True b(1) ihb ihs by (intro invar_fresh_internal) (simp_all add: width_def)
    then show ?thesis using eq by (simp add: u_def)
  qed
qed

lemma V_generic_fresh:
  "\<exists>t. V_generic sz = Some t \<and> invar Generic t \<and> U t = sz \<and> min_V t = -1"
proof (induction "nat sz" arbitrary: sz rule: less_induct)
  case less
  define b where "b = isqrt sz"
  show ?case
  proof (cases "SMALL \<le> sz")
    case False
    then have "V_generic sz = Some (V sz b (-1) (-1) 0 None [])"
      by (subst V_generic.simps) (simp add: b_def)
    then show ?thesis using False by (simp add: invar_leaf leaf_inv_empty)
  next
    case True
    have b5: "5 \<le> b" using True by (simp add: b_def isqrt_ge5)
    then obtain blocks where cb: "count_blocks sz b b = Some blocks"
      using count_blocks_eq [of b sz b] by simp
    note bb = blocks_bounds [OF True cb [unfolded b_def], folded b_def]
    have "nat b < nat sz" using isqrt_less [OF True] b5 by (simp add: b_def)
    then obtain c where c: "V_generic b = Some c" "invar Generic c" "U c = b" "min_V c = -1"
      using less.hyps by blast
    have "nat blocks < nat sz" using bb(1,3) b5 by simp
    then obtain s where s: "V_generic blocks = Some s" "invar Generic s" "U s = blocks"
      "min_V s = -1"
      using less.hyps by blast
    have eq: "V_generic sz = Some (V sz b (-1) (-1) 0 (Some s) (replicate (nat blocks) c))"
      using True cb c(1) s(1) by (subst V_generic.simps) (simp add: b_def Let_def)
    have "invar Generic (V sz b (-1) (-1) 0 (Some s) (replicate (nat blocks) c))"
      using True b5 bb c(2-4) s(2-4) by (intro invar_fresh_internal) (simp_all add: width_def)
    then show ?thesis using eq by simp
  qed
qed

lemma construct_fresh:
  assumes "valid_descr p d"
  shows "\<exists>t. construct p d = Some t \<and> invar p t \<and> U t = universe p d \<and> elems p t = {}"
proof (cases p)
  case Generic
  obtain t where "V_generic d = Some t" "invar Generic t" "U t = d" "min_V t = -1"
    using V_generic_fresh by blast
  then show ?thesis using Generic invar_empty(2) [of Generic t]
    by (simp add: construct_def universe_def)
next
  case Pow2
  have "0 \<le> d" using assms Pow2 by (simp add: valid_descr_def)
  then show ?thesis using V_pow2_fresh [of d] Pow2 invar_empty(2) [of Pow2 "V_pow2 d"]
    by (simp add: construct_def universe_def)
qed

lemma apply_op_correct:
  assumes "invar p t" "obeys (U t) (elems p t) [c]"
  shows "\<exists>t'. apply_op p t c = Some t' \<and> invar p t' \<and> U t' = U t \<and>
    elems p t' = reference (elems p t) [c]"
proof (cases c)
  case (Insert x)
  then show ?thesis using assms insert_V_correct [of p t x] by simp
next
  case (Erase x)
  then show ?thesis using assms erase_correct [of p t x] by simp
qed

lemma run_correct:
  "invar p t \<Longrightarrow> obeys (U t) (elems p t) cs \<Longrightarrow>
   \<exists>t'. run p t cs = Some t' \<and> invar p t' \<and> U t' = U t \<and> elems p t' = reference (elems p t) cs"
proof (induction cs arbitrary: t)
  case Nil
  then show ?case by simp
next
  case (Cons c cs)
  have "obeys (U t) (elems p t) [c]" using Cons.prems(2) by (cases c) simp_all
  then obtain t1 where t1: "apply_op p t c = Some t1" "invar p t1" "U t1 = U t"
    "elems p t1 = reference (elems p t) [c]"
    using apply_op_correct [OF Cons.prems(1)] by blast
  have "obeys (U t1) (elems p t1) cs" using Cons.prems(2) t1(3,4) by (cases c) simp_all
  then obtain t' where "run p t1 cs = Some t'" "invar p t'" "U t' = U t1"
    "elems p t' = reference (elems p t1) cs"
    using Cons.IH [OF t1(2)] by blast
  moreover have "reference (elems p t1) cs = reference (elems p t) (c # cs)"
    using t1(4) by (cases c) simp_all
  ultimately show ?case using t1(1,3) by simp
qed

lemma session_correct:
  assumes "valid_descr p d" "obeys (universe p d) {} cs"
  shows "\<exists>t. session p d cs = Some t \<and> invar p t \<and> U t = universe p d \<and>
    elems p t = reference {} cs"
proof -
  obtain t0 where t0: "construct p d = Some t0" "invar p t0" "U t0 = universe p d"
    "elems p t0 = {}"
    using construct_fresh [OF assms(1)] by blast
  then show ?thesis using run_correct [of p t0 cs] assms(2) by (simp add: session_def)
qed

lemma contains_total:
  "invar p t \<Longrightarrow> 0 \<le> x \<Longrightarrow> x < U t \<Longrightarrow> \<exists>r. contains p t x = Some r"
proof (induction t arbitrary: x)
  case (V u b mn mx sm summ blk)
  have x: "0 \<le> x" "x < u" using V.prems by simp_all
  show ?case
  proof (cases "u < SMALL")
    case True
    then show ?thesis using x by (auto simp: contains.simps SMALL_def)
  next
    case False
    note d = invar_internalD [OF V.prems(1) False]
    have ib: "in_block blk (x div width p b)" using x d(3,2) by (rule div_in_block)
    then have cin: "blk ! nat (x div width p b) \<in> set blk" by (rule in_block_nth)
    have "0 \<le> x mod width p b" "x mod width p b < U (blk ! nat (x div width p b))"
      using d(2) d(4) [OF cin] by simp_all
    then have "\<exists>r. contains p (blk ! nat (x div width p b)) (x mod width p b) = Some r"
      using V.IH(2) [OF cin] d(4) [OF cin] by blast
    then show ?thesis
      using x False ib d(2) by (auto simp: contains.simps high_eq low_eq)
  qed
qed

lemma contains_elems:
  assumes "invar p t" "0 \<le> x" "x < U t"
  shows "contains p t x = Some (x \<in> elems p t)"
proof -
  obtain r where "contains p t x = Some r" using contains_total [OF assms] by blast
  then show ?thesis using assms(2,3) by (auto simp: elems_def)
qed

lemma invar_nodes: "invar p t \<Longrightarrow> n \<in> set (nodes t) \<Longrightarrow> invar p n"
proof (induction t)
  case (V u b mn mx sm summ blk)
  show ?case
  proof (cases "u < SMALL")
    case True
    then have "summ = None" "blk = []" using V.prems(1) by (simp_all add: invar_leaf)
    then show ?thesis using V.prems by simp
  next
    case False
    note d = invar_internalD [OF V.prems(1) False]
    obtain s where s: "summ = Some s" "invar p s" using d(5) by blast
    consider "n = V u b mn mx sm summ blk" | "n \<in> set (nodes s)"
      | c where "c \<in> set blk" "n \<in> set (nodes c)"
      using V.prems(2) s(1) by auto
    then show ?thesis
    proof cases
      case 1
      then show ?thesis using V.prems(1) by simp
    next
      case 2
      then show ?thesis using V.IH(1) [of s] s by simp
    next
      case 3
      then show ?thesis using V.IH(2) [OF 3(1)] d(4) [OF 3(1)] by simp
    qed
  qed
qed

lemma internal_node_split:
  assumes "valid_descr p d" "obeys (universe p d) {} cs"
  shows "\<exists>t. session p d cs = Some t \<and>
    (\<forall>n \<in> set (nodes t). \<not> U n < SMALL \<longrightarrow> 0 \<le> B n \<and> (p = Generic \<longrightarrow> B n \<noteq> 0))"
proof -
  obtain t where t: "session p d cs = Some t" "invar p t"
    using session_correct [OF assms(1,2)] by blast
  have "0 \<le> B n \<and> (p = Generic \<longrightarrow> B n \<noteq> 0)" if n: "n \<in> set (nodes t)" "\<not> U n < SMALL" for n
  proof -
    obtain u b mn mx sm summ blk where v: "n = V u b mn mx sm summ blk" by (cases n)
    have inv: "invar p (V u b mn mx sm summ blk)" using t(2) n(1) v invar_nodes by blast
    have "\<not> u < SMALL" using n(2) v by simp
    note d = invar_internalD [OF inv this]
    show ?thesis using d(1,2) v by (auto simp: width_def)
  qed
  then show ?thesis using t(1) by blast
qed

section \<open>The split and its inverse\<close>

text \<open>
  Claim C8. For either decomposition policy, recombining the two parts of a key gives the
  key back: \<open>index (high x) (low x) = x\<close> for every non-negative key \<open>x\<close>, where the
  field \<open>B\<close> is non-negative (it is a shift count in the power-of-two file) and, in the
  generic file, not zero (it is the divisor). By \<open>internal_node_split\<close> every internal
  node of a tree that a run produces has such a \<open>B\<close>, and the keys of its universe are
  non-negative.
\<close>

theorem index_high_low:
  "0 \<le> b \<Longrightarrow> (p = Generic \<longrightarrow> b \<noteq> 0) \<Longrightarrow> 0 \<le> x \<Longrightarrow>
   index p b (high p b x) (low p b x) = x"
proof -
  assume "0 \<le> b" "p = Generic \<longrightarrow> b \<noteq> 0" and x: "0 \<le> x"
  then have w: "0 < width p b" by (cases p) (simp_all add: width_def)
  have "0 \<le> x mod width p b" "x mod width p b < width p b" using w by simp_all
  then have "index p b (x div width p b) (x mod width p b) =
      x div width p b * width p b + x mod width p b"
    by (rule index_eq)
  also have "\<dots> = x" by (rule div_mult_mod_eq)
  finally show ?thesis using w x by (simp add: high_eq low_eq)
qed

theorem index_high_low_witness:
  "(0::int) \<le> 2 \<and> Pow2 \<noteq> Generic \<and> (0::int) \<le> 27 \<and>
   index Pow2 2 (high Pow2 2 27) (low Pow2 2 27) = 27 \<and>
   (0::int) \<le> 5 \<and> (5::int) \<noteq> 0 \<and>
   index Generic 5 (high Generic 5 27) (low Generic 5 27) = 27"
  using index_high_low [of 2 Pow2 27] index_high_low [of 5 Generic 27]
  by simp

section \<open>Queries against the reference table\<close>

text \<open>
  Claim C1. For either policy and every universe the constructor accepts without
  overflow, after every run of mutations that respects the preconditions, and for every
  key \<open>x\<close> of the universe, \<open>successor x\<close> returns normally, and its value is the
  least key of the reference table strictly greater than \<open>x\<close> when there is one, and
  \<open>-1\<close> when there is none.
\<close>

theorem successor_matches_reference:
  assumes "valid_descr p d" "obeys (universe p d) {} cs" "0 \<le> x" "x < universe p d"
  shows "\<exists>t r. session p d cs = Some t \<and> successor p t x = Some r \<and>
    (if \<exists>y \<in> reference {} cs. x < y
     then r \<in> reference {} cs \<and> x < r \<and> (\<forall>y \<in> reference {} cs. x < y \<longrightarrow> r \<le> y)
     else r = -1)"
proof -
  obtain t where t: "session p d cs = Some t" "invar p t" "U t = universe p d"
    "elems p t = reference {} cs"
    using session_correct [OF assms(1,2)] by blast
  have "successor p t x = Some (next_above (elems p t) x)"
    using t(2) assms(3) assms(4) t(3) by (intro successor_correct) simp_all
  moreover have "finite (elems p t)" by simp
  ultimately show ?thesis
    using t(1,4) next_above_cases [of "elems p t" x] by auto
qed

theorem successor_matches_reference_witness:
  "valid_descr Pow2 5 \<and> obeys (universe Pow2 5) {} [Insert 5, Insert 17, Insert 3, Erase 5] \<and>
   (0::int) \<le> 4 \<and> 4 < universe Pow2 5 \<and>
   (\<exists>t r. session Pow2 5 [Insert 5, Insert 17, Insert 3, Erase 5] = Some t \<and>
      successor Pow2 t 4 = Some r \<and>
      (if \<exists>y \<in> reference {} [Insert 5, Insert 17, Insert 3, Erase 5]. 4 < y
       then r \<in> reference {} [Insert 5, Insert 17, Insert 3, Erase 5] \<and> 4 < r \<and>
         (\<forall>y \<in> reference {} [Insert 5, Insert 17, Insert 3, Erase 5]. 4 < y \<longrightarrow> r \<le> y)
       else r = -1))"
proof -
  have h: "valid_descr Pow2 5" "obeys (universe Pow2 5) {} [Insert 5, Insert 17, Insert 3, Erase 5]"
    "(0::int) \<le> 4" "4 < universe Pow2 5"
    by (simp_all add: valid_descr_def universe_def)
  show ?thesis using h successor_matches_reference [OF h] by blast
qed

text \<open>
  Claim C2. After every run of mutations that respects the preconditions, and for every
  key \<open>x\<close> of the universe, \<open>contains x\<close> returns normally and is true exactly when
  \<open>x\<close> is in the reference table; and its value is that of the test the source writes:
  \<open>x = min\<close>, or bit \<open>x\<close> of \<open>small\<close> at a leaf, or \<open>contains (low x)\<close> in
  \<open>block[high x]\<close> at an internal node. (\<^verbatim>\<open>contains\<close> is shipped in the power-of-two
  file; the statement holds for the same body over the generic split as well.)
\<close>

theorem contains_matches_reference:
  assumes "valid_descr p d" "obeys (universe p d) {} cs" "0 \<le> x" "x < universe p d"
  shows "\<exists>t. session p d cs = Some t \<and> contains p t x = Some (x \<in> reference {} cs) \<and>
    contains p t x =
      (if x = min_V t then Some True
       else if U t < SMALL then Some (drop_bit (nat x) (small t) AND 1 \<noteq> 0)
       else contains p (block t ! nat (high p (B t) x)) (low p (B t) x))"
proof -
  obtain t where t: "session p d cs = Some t" "invar p t" "U t = universe p d"
    "elems p t = reference {} cs"
    using session_correct [OF assms(1,2)] by blast
  have x: "0 \<le> x" "x < U t" using assms(3,4) t(3) by simp_all
  have 1: "contains p t x = Some (x \<in> reference {} cs)"
    using contains_elems [OF t(2) x] t(4) by simp
  obtain u b mn mx sm summ blk where v: "t = V u b mn mx sm summ blk" by (cases t)
  have 2: "contains p t x =
      (if x = min_V t then Some True
       else if U t < SMALL then Some (drop_bit (nat x) (small t) AND 1 \<noteq> 0)
       else contains p (block t ! nat (high p (B t) x)) (low p (B t) x))"
  proof (cases "u < SMALL")
    case True
    then show ?thesis using x v by (simp add: contains.simps SMALL_def)
  next
    case False
    note d = invar_internalD [OF t(2) [unfolded v] False]
    have "in_block blk (x div width p b)" using x [unfolded v] d(3,2) by (intro div_in_block) simp_all
    then show ?thesis using x v False d(2) by (simp add: contains.simps high_eq)
  qed
  show ?thesis using t(1) 1 2 by blast
qed

theorem contains_matches_reference_witness:
  "valid_descr Pow2 5 \<and> obeys (universe Pow2 5) {} [Insert 5, Insert 17, Insert 3, Erase 5] \<and>
   (0::int) \<le> 17 \<and> 17 < universe Pow2 5 \<and>
   (\<exists>t. session Pow2 5 [Insert 5, Insert 17, Insert 3, Erase 5] = Some t \<and>
      contains Pow2 t 17 = Some (17 \<in> reference {} [Insert 5, Insert 17, Insert 3, Erase 5]) \<and>
      contains Pow2 t 17 =
        (if 17 = min_V t then Some True
         else if U t < SMALL then Some (drop_bit (nat 17) (small t) AND 1 \<noteq> 0)
         else contains Pow2 (block t ! nat (high Pow2 (B t) 17)) (low Pow2 (B t) 17)))"
proof -
  have h: "valid_descr Pow2 5" "obeys (universe Pow2 5) {} [Insert 5, Insert 17, Insert 3, Erase 5]"
    "(0::int) \<le> 17" "17 < universe Pow2 5"
    by (simp_all add: valid_descr_def universe_def)
  show ?thesis using h contains_matches_reference [OF h] by blast
qed

section \<open>Invariants of every node\<close>

lemma Min_Max_elems:
  assumes "invar p n" "elems p n \<noteq> {}"
  shows "min_V n = Min (elems p n)" "max_V n = Max (elems p n)" "min_V n \<le> max_V n"
proof -
  have ne: "min_V n \<noteq> -1" using assms invar_min_iff by blast
  note f = invar_nonempty [OF assms(1) ne]
  show "min_V n = Min (elems p n)"
    using f(1) f(3) by (intro Min_eqI [symmetric]) auto
  show "max_V n = Max (elems p n)"
    using f(2) f(3) by (intro Max_eqI [symmetric]) auto
  show "min_V n \<le> max_V n" using f(2) f(3) by blast
qed

text \<open>
  Claim C3. After every run of mutations that respects the preconditions, the keys the
  root holds are those of the reference table; the root's \<open>min\<close> and \<open>max\<close> are the
  least and the greatest key of the table, with \<open>min \<le> max\<close>, and are both \<open>-1\<close> when
  the table is empty; and the same holds at every node of the tree for the keys that
  node holds. The keys a node holds are those of its universe on which \<open>contains\<close> is
  true.
\<close>

theorem min_max_cached:
  assumes "valid_descr p d" "obeys (universe p d) {} cs"
  shows "\<exists>t. session p d cs = Some t \<and> elems p t = reference {} cs \<and>
    (reference {} cs = {} \<longrightarrow> min_V t = -1 \<and> max_V t = -1) \<and>
    (reference {} cs \<noteq> {} \<longrightarrow>
       min_V t = Min (reference {} cs) \<and> max_V t = Max (reference {} cs) \<and>
       min_V t \<le> max_V t) \<and>
    (\<forall>n \<in> set (nodes t).
       (elems p n = {} \<longrightarrow> min_V n = -1 \<and> max_V n = -1) \<and>
       (elems p n \<noteq> {} \<longrightarrow>
          min_V n = Min (elems p n) \<and> max_V n = Max (elems p n) \<and> min_V n \<le> max_V n))"
proof -
  obtain t where t: "session p d cs = Some t" "invar p t" "U t = universe p d"
    "elems p t = reference {} cs"
    using session_correct [OF assms(1,2)] by blast
  have "(elems p n = {} \<longrightarrow> min_V n = -1 \<and> max_V n = -1) \<and>
       (elems p n \<noteq> {} \<longrightarrow>
          min_V n = Min (elems p n) \<and> max_V n = Max (elems p n) \<and> min_V n \<le> max_V n)"
    if "n \<in> set (nodes t)" for n
  proof -
    have inv: "invar p n" using t(2) that by (rule invar_nodes)
    show ?thesis
      using invar_min_iff [OF inv] invar_max_iff [OF inv] Min_Max_elems [OF inv] by blast
  qed
  moreover have "(reference {} cs = {} \<longrightarrow> min_V t = -1 \<and> max_V t = -1) \<and>
    (reference {} cs \<noteq> {} \<longrightarrow>
       min_V t = Min (reference {} cs) \<and> max_V t = Max (reference {} cs) \<and>
       min_V t \<le> max_V t)"
    using invar_min_iff [OF t(2)] invar_max_iff [OF t(2)] Min_Max_elems [OF t(2)]
    unfolding t(4) by blast
  ultimately show ?thesis using t(1,4) by blast
qed

theorem min_max_cached_witness:
  "valid_descr Generic 40 \<and> obeys (universe Generic 40) {} [Insert 5, Insert 17, Insert 3, Erase 5] \<and>
   (\<exists>t. session Generic 40 [Insert 5, Insert 17, Insert 3, Erase 5] = Some t \<and>
      elems Generic t = reference {} [Insert 5, Insert 17, Insert 3, Erase 5] \<and>
      (reference {} [Insert 5, Insert 17, Insert 3, Erase 5] = {} \<longrightarrow>
         min_V t = -1 \<and> max_V t = -1) \<and>
      (reference {} [Insert 5, Insert 17, Insert 3, Erase 5] \<noteq> {} \<longrightarrow>
         min_V t = Min (reference {} [Insert 5, Insert 17, Insert 3, Erase 5]) \<and>
         max_V t = Max (reference {} [Insert 5, Insert 17, Insert 3, Erase 5]) \<and>
         min_V t \<le> max_V t) \<and>
      (\<forall>n \<in> set (nodes t).
         (elems Generic n = {} \<longrightarrow> min_V n = -1 \<and> max_V n = -1) \<and>
         (elems Generic n \<noteq> {} \<longrightarrow>
            min_V n = Min (elems Generic n) \<and> max_V n = Max (elems Generic n) \<and>
            min_V n \<le> max_V n)))"
proof -
  have "isqrt 40 = 6" by code_simp
  then have h: "valid_descr Generic 40"
    "obeys (universe Generic 40) {} [Insert 5, Insert 17, Insert 3, Erase 5]"
    by (simp_all add: valid_descr_def universe_def INT_MAX_def)
  show ?thesis using h min_max_cached [OF h] by blast
qed

text \<open>
  Claim C4. After every run of mutations that respects the preconditions, every internal
  node of the tree has a summary, and an index \<open>i\<close> of its block vector is a member of
  the summary exactly when \<open>block[i]\<close> is not empty, that is \<open>block[i].min \<noteq> -1\<close>.
\<close>

theorem summary_matches_blocks:
  assumes "valid_descr p d" "obeys (universe p d) {} cs"
  shows "\<exists>t. session p d cs = Some t \<and>
    (\<forall>n \<in> set (nodes t). \<not> U n < SMALL \<longrightarrow>
       (\<exists>s. summary n = Some s \<and>
          (\<forall>i. 0 \<le> i \<and> i < int (length (block n)) \<longrightarrow>
             (contains p s i = Some True) = (min_V (block n ! nat i) \<noteq> -1))))"
proof -
  obtain t where t: "session p d cs = Some t" "invar p t"
    using session_correct [OF assms(1,2)] by blast
  have "\<exists>s. summary n = Some s \<and>
          (\<forall>i. 0 \<le> i \<and> i < int (length (block n)) \<longrightarrow>
             (contains p s i = Some True) = (min_V (block n ! nat i) \<noteq> -1))"
    if n: "n \<in> set (nodes t)" "\<not> U n < SMALL" for n
  proof -
    obtain u b mn mx sm summ blk where v: "n = V u b mn mx sm summ blk" by (cases n)
    have inv: "invar p (V u b mn mx sm summ blk)" using t(2) n(1) v invar_nodes by blast
    have "\<not> u < SMALL" using n(2) v by simp
    note d = invar_internalD [OF inv this]
    obtain s where s: "summ = Some s" "U s = int (length blk)"
      "elems p s = {i. 0 \<le> i \<and> i < int (length blk) \<and> min_V (blk ! nat i) \<noteq> -1}"
      using d(5) by blast
    have "(contains p s i = Some True) = (min_V (blk ! nat i) \<noteq> -1)"
      if "0 \<le> i" "i < int (length blk)" for i
    proof -
      have "i \<in> elems p s \<longleftrightarrow> contains p s i = Some True"
        using that s(2) by (simp add: elems_def)
      then show ?thesis using that s(3) by simp
    qed
    then show ?thesis using v s(1) by simp
  qed
  then show ?thesis using t(1) by blast
qed

theorem summary_matches_blocks_witness:
  "valid_descr Pow2 5 \<and> obeys (universe Pow2 5) {} [Insert 5, Insert 17, Insert 3, Erase 5] \<and>
   (\<exists>t. session Pow2 5 [Insert 5, Insert 17, Insert 3, Erase 5] = Some t \<and>
    (\<forall>n \<in> set (nodes t). \<not> U n < SMALL \<longrightarrow>
       (\<exists>s. summary n = Some s \<and>
          (\<forall>i. 0 \<le> i \<and> i < int (length (block n)) \<longrightarrow>
             (contains Pow2 s i = Some True) = (min_V (block n ! nat i) \<noteq> -1)))))"
proof -
  have h: "valid_descr Pow2 5" "obeys (universe Pow2 5) {} [Insert 5, Insert 17, Insert 3, Erase 5]"
    by (simp_all add: valid_descr_def universe_def)
  show ?thesis using h summary_matches_blocks [OF h] by blast
qed

lemma node_sets_nodes: "map fst (node_sets p t S) = nodes t"
proof (induction t arbitrary: S)
  case (V u b mn mx sm summ blk)
  have "concat (map (\<lambda>i. map fst (node_sets p (blk ! i) (f i))) [0..<length blk]) =
      concat (map nodes blk)" for f
  proof -
    have "map (\<lambda>i. map fst (node_sets p (blk ! i) (f i))) [0..<length blk] =
        map (\<lambda>i. nodes (blk ! i)) [0..<length blk]"
      using V.IH(2) by (intro map_cong) auto
    also have "\<dots> = map nodes (map (\<lambda>i. blk ! i) [0..<length blk])" by (simp add: comp_def)
    also have "\<dots> = map nodes blk" by (simp only: map_nth)
    finally show ?thesis by simp
  qed
  then show ?case using V.IH(1) by (cases summ) (simp_all add: map_concat comp_def)
qed


lemma below_min:
  assumes "invar p (V u b mn mx sm summ blk)" "\<not> u < SMALL"
  shows "elems p (V u b mn mx sm summ blk) - {Min (elems p (V u b mn mx sm summ blk))} =
    stored p b blk"
proof (cases "elems p (V u b mn mx sm summ blk) = {}")
  case True
  then show ?thesis using invar_elems_internal [OF assms] by auto
next
  case False
  have "mn = Min (elems p (V u b mn mx sm summ blk))"
    using Min_Max_elems(1) [OF assms(1) False] by simp
  moreover have "mn \<noteq> -1" using invar_min_iff [OF assms(1)] False by simp
  moreover have "mn \<notin> stored p b blk" using invar_internalD(8) [OF assms] by blast
  ultimately show ?thesis using invar_elems_internal [OF assms] by auto
qed

lemma node_sets_correct:
  "invar p t \<Longrightarrow> (n, S) \<in> set (node_sets p t (elems p t)) \<Longrightarrow> invar p n \<and> elems p n = S"
proof (induction t)
  case (V u b mn mx sm summ blk)
  let ?t = "V u b mn mx sm summ blk"
  have inv: "invar p ?t" by (rule V.prems(1))
  show ?case
  proof (cases "u < SMALL")
    case True
    then have "summ = None" "blk = []" using inv by (simp_all add: invar_leaf)
    then show ?thesis using V.prems by simp
  next
    case False
    note d = invar_internalD [OF inv False]
    obtain s where s: "summ = Some s" "invar p s" "U s = int (length blk)"
      "elems p s = {i. 0 \<le> i \<and> i < int (length blk) \<and> min_V (blk ! nat i) \<noteq> -1}"
      using d(5) by blast
    define w where "w = width p b"
    have w: "0 < w" using d(2) by (simp add: w_def)
    have R: "elems p ?t - {Min (elems p ?t)} = stored p b blk"
      using inv False by (rule below_min)
    have hl: "high p b x = x div w" "low p b x = x mod w" if "x \<in> stored p b blk" for x
      using stored_div(3) [OF that d(2)] d(2) by (simp_all add: high_eq low_eq w_def)
    have es: "high p b ` stored p b blk = elems p s"
    proof (rule set_eqI)
      fix i
      show "i \<in> high p b ` stored p b blk \<longleftrightarrow> i \<in> elems p s"
      proof
        assume "i \<in> high p b ` stored p b blk"
        then obtain x where x: "x \<in> stored p b blk" "i = high p b x" by blast
        then show "i \<in> elems p s"
          using stored_summary [OF x(1) d(2) d(4) s(4)] hl(1) [OF x(1)] by (simp add: w_def)
      next
        assume i: "i \<in> elems p s"
        then have ib: "in_block blk i" and ne: "min_V (blk ! nat i) \<noteq> -1"
          using s(4) by (simp_all add: in_block_def)
        define c where "c = blk ! nat i"
        have cin: "c \<in> set blk" unfolding c_def using ib by (rule in_block_nth)
        have c: "invar p c" "U c = w" using d(4) [OF cin] by (simp_all add: w_def)
        have j: "min_V c \<in> elems p c" using invar_nonempty(1) [OF c(1)] ne by (simp add: c_def)
        have jb: "0 \<le> min_V c" "min_V c < w" using elems_bounds [OF j] c(2) by simp_all
        have x: "i * w + min_V c \<in> stored p b blk"
          using stored_key [OF ib d(2), of "min_V c"] jb j by (simp add: w_def c_def)
        have "high p b (i * w + min_V c) = i"
          using hl(1) [OF x] w jb by (simp add: split_key)
        then show "i \<in> high p b ` stored p b blk" using x by force
      qed
    qed
    have eb: "{low p b x |x. x \<in> stored p b blk \<and> high p b x = int i} = elems p (blk ! i)"
      if i: "i < length blk" for i
    proof (rule set_eqI)
      fix j
      have ib: "in_block blk (int i)" using i by (simp add: in_block_def)
      have cin: "blk ! i \<in> set blk" using i by (rule nth_mem)
      have c: "U (blk ! i) = w" using d(4) [OF cin] by (simp add: w_def)
      show "j \<in> {low p b x |x. x \<in> stored p b blk \<and> high p b x = int i} \<longleftrightarrow>
          j \<in> elems p (blk ! i)"
      proof
        assume "j \<in> {low p b x |x. x \<in> stored p b blk \<and> high p b x = int i}"
        then obtain x where x: "x \<in> stored p b blk" "high p b x = int i" "j = low p b x"
          by blast
        have "x div width p b = int i" using x(2) hl(1) [OF x(1)] by (simp add: w_def)
        then have "x mod width p b \<in> elems p (blk ! nat (int i))"
          using stored_block [OF ib d(2), of x] x(1) by simp
        then show "j \<in> elems p (blk ! i)" using x(3) hl(2) [OF x(1)] by (simp add: w_def)
      next
        assume j: "j \<in> elems p (blk ! i)"
        have jb: "0 \<le> j" "j < w" using elems_bounds [OF j] c by simp_all
        have x: "int i * w + j \<in> stored p b blk"
          using stored_key [OF ib d(2), of j] jb j by (simp add: w_def)
        have "high p b (int i * w + j) = int i" "low p b (int i * w + j) = j"
          using hl [OF x] w jb by (simp_all add: split_key)
        then show "j \<in> {low p b x |x. x \<in> stored p b blk \<and> high p b x = int i}"
          using x by force
      qed
    qed
    consider "(n, S) = (?t, elems p ?t)" | "(n, S) \<in> set (node_sets p s (elems p s))"
      | i where "i < length blk" "(n, S) \<in> set (node_sets p (blk ! i) (elems p (blk ! i)))"
      using V.prems(2) s(1) unfolding node_sets.simps R es
      by (auto simp: eb)
    then show ?thesis
    proof cases
      case 1
      then show ?thesis using inv by simp
    next
      case 2
      then show ?thesis using V.IH(1) [of s] s(1,2) by simp
    next
      case 3
      have cin: "blk ! i \<in> set blk" using 3(1) by (rule nth_mem)
      show ?thesis using V.IH(2) [OF cin _ 3(2)] d(4) [OF cin] by simp
    qed
  qed
qed

text \<open>
  Claim C5. After every run of mutations that respects the preconditions, at every leaf
  of the tree bit \<open>i\<close> of \<open>small\<close> (read as the source reads it,
  \<^verbatim>\<open>small >> i & 1\<close>) is set exactly when \<open>i\<close> is a key of the leaf's subtree other
  than its \<open>min\<close>, and \<open>min\<close> is the least key of the subtree (\<open>-1\<close> when there is
  none): the cached minimum is never in the mask. The keys of a leaf's subtree are those
  that \<open>node_sets\<close> derives from the reference table; the mask has no part in them.
  Mutations include \<^verbatim>\<open>erase\<close>, whose rescan clears the first set bit when it makes it
  the new \<open>min\<close>.
\<close>

theorem leaf_mask_excludes_min:
  assumes "valid_descr p d" "obeys (universe p d) {} cs"
  shows "\<exists>t. session p d cs = Some t \<and>
    map fst (node_sets p t (reference {} cs)) = nodes t \<and>
    (\<forall>(n, S) \<in> set (node_sets p t (reference {} cs)). U n < SMALL \<longrightarrow>
       (S = {} \<longrightarrow> min_V n = -1) \<and> (S \<noteq> {} \<longrightarrow> min_V n = Min S) \<and>
       (\<forall>i. 0 \<le> i \<longrightarrow>
          (drop_bit (nat i) (small n) AND 1 \<noteq> 0) = (i \<in> S \<and> i \<noteq> min_V n)))"
proof -
  obtain t where t: "session p d cs = Some t" "invar p t" "elems p t = reference {} cs"
    using session_correct [OF assms(1,2)] by blast
  have "(S = {} \<longrightarrow> min_V n = -1) \<and> (S \<noteq> {} \<longrightarrow> min_V n = Min S) \<and>
       (\<forall>i. 0 \<le> i \<longrightarrow>
          (drop_bit (nat i) (small n) AND 1 \<noteq> 0) = (i \<in> S \<and> i \<noteq> min_V n))"
    if n: "(n, S) \<in> set (node_sets p t (reference {} cs))" "U n < SMALL" for n S
  proof -
    have inv: "invar p n" and S: "elems p n = S"
      using node_sets_correct [OF t(2), of n S] n(1) t(3) by simp_all
    obtain u b mn mx sm summ blk where v: "n = V u b mn mx sm summ blk" by (cases n)
    have u: "u < SMALL" using n(2) v by simp
    have li: "leaf_inv u (mn, mx, sm)" using inv u v by (simp add: invar_leaf)
    have el: "S = leaf_set (mn, mx, sm)"
      using elems_leaf_inv [OF u li, of p b summ blk] S v by simp
    have "bit sm (nat i) \<Longrightarrow> i \<noteq> mn" if "0 \<le> i" for i
      using li that by (fastforce simp: leaf_inv_def)
    then have "\<forall>i. 0 \<le> i \<longrightarrow>
          (drop_bit (nat i) (small n) AND 1 \<noteq> 0) = (i \<in> S \<and> i \<noteq> min_V n)"
      using v el by (auto simp: test_bit leaf_set_def)
    moreover have "S = {} \<longrightarrow> min_V n = -1" using invar_min_iff [OF inv] S by simp
    moreover have "S \<noteq> {} \<longrightarrow> min_V n = Min S" using Min_Max_elems(1) [OF inv] S by simp
    ultimately show ?thesis by blast
  qed
  then show ?thesis using t(1) node_sets_nodes [of p t "reference {} cs"] by blast
qed

theorem leaf_mask_excludes_min_witness:
  "valid_descr Pow2 5 \<and>
   obeys (universe Pow2 5) {} [Insert 5, Insert 17, Insert 18, Insert 19, Insert 3, Erase 17] \<and>
   session Pow2 5 [Insert 5, Insert 17, Insert 18, Insert 19, Insert 3, Erase 17] =
     Some (V 32 2 3 19 0 (Some (V 8 1 1 4 16 None []))
       [V 4 1 (- 1) (- 1) 0 None [], V 4 1 1 1 0 None [],
        V 4 1 (- 1) (- 1) 0 None [], V 4 1 (- 1) (- 1) 0 None [],
        V 4 1 2 3 8 None [], V 4 1 (- 1) (- 1) 0 None [],
        V 4 1 (- 1) (- 1) 0 None [], V 4 1 (- 1) (- 1) 0 None []]) \<and>
   (\<exists>t. session Pow2 5 [Insert 5, Insert 17, Insert 18, Insert 19, Insert 3, Erase 17] = Some t \<and>
    map fst (node_sets Pow2 t
      (reference {} [Insert 5, Insert 17, Insert 18, Insert 19, Insert 3, Erase 17])) = nodes t \<and>
    (\<forall>(n, S) \<in> set (node_sets Pow2 t
        (reference {} [Insert 5, Insert 17, Insert 18, Insert 19, Insert 3, Erase 17])).
       U n < SMALL \<longrightarrow>
       (S = {} \<longrightarrow> min_V n = -1) \<and> (S \<noteq> {} \<longrightarrow> min_V n = Min S) \<and>
       (\<forall>i. 0 \<le> i \<longrightarrow>
          (drop_bit (nat i) (small n) AND 1 \<noteq> 0) = (i \<in> S \<and> i \<noteq> min_V n))))"
proof -
  have h: "valid_descr Pow2 5"
    "obeys (universe Pow2 5) {} [Insert 5, Insert 17, Insert 18, Insert 19, Insert 3, Erase 17]"
    by (simp_all add: valid_descr_def universe_def)
  have e: "session Pow2 5 [Insert 5, Insert 17, Insert 18, Insert 19, Insert 3, Erase 17] =
     Some (V 32 2 3 19 0 (Some (V 8 1 1 4 16 None []))
       [V 4 1 (- 1) (- 1) 0 None [], V 4 1 1 1 0 None [],
        V 4 1 (- 1) (- 1) 0 None [], V 4 1 (- 1) (- 1) 0 None [],
        V 4 1 2 3 8 None [], V 4 1 (- 1) (- 1) 0 None [],
        V 4 1 (- 1) (- 1) 0 None [], V 4 1 (- 1) (- 1) 0 None []])"
    by code_simp
  show ?thesis using h e leaf_mask_excludes_min [OF h] by blast
qed

text \<open>
  This property of the mask tells states apart: a leaf that caches \<open>max = 5\<close> for the
  keys 3 and 5 with an empty mask does not have it.
\<close>

lemma leaf_mask_property_discriminates:
  "\<not> (\<forall>i. 0 \<le> i \<longrightarrow>
        (drop_bit (nat i) (small (V 8 1 3 5 0 None [])) AND 1 \<noteq> 0) =
        (i \<in> {3, 5} \<and> i \<noteq> min_V (V 8 1 3 5 0 None [])))"
proof
  assume "\<forall>i. 0 \<le> i \<longrightarrow>
        (drop_bit (nat i) (small (V 8 1 3 5 0 None [])) AND 1 \<noteq> 0) =
        (i \<in> {3, 5} \<and> i \<noteq> min_V (V 8 1 3 5 0 None []))"
  moreover have "(0::int) \<le> 5" by simp
  ultimately have "(drop_bit (nat 5) (small (V 8 1 3 5 0 None [])) AND 1 \<noteq> 0) =
        ((5::int) \<in> {3, 5} \<and> 5 \<noteq> min_V (V 8 1 3 5 0 None []))" by blast
  then show False by simp
qed

section \<open>The fresh structure, absent keys, and the two policies\<close>

text \<open>
  Claim C7. A freshly constructed structure, of either policy and any universe the
  constructor accepts without overflow, has \<open>min = -1\<close> (so the guard \<open>x < min\<close> of
  \<^verbatim>\<open>successor\<close> is false for every key), and for every key \<open>x\<close> of the universe
  \<open>contains x\<close> returns false and \<open>successor x\<close> returns \<open>-1\<close>.
\<close>

theorem fresh_is_empty:
  assumes "valid_descr p d"
  shows "\<exists>t. construct p d = Some t \<and> min_V t = -1 \<and>
    (\<forall>x. 0 \<le> x \<and> x < universe p d \<longrightarrow>
       \<not> x < min_V t \<and> contains p t x = Some False \<and> successor p t x = Some (-1))"
proof -
  obtain t where t: "construct p d = Some t" "invar p t" "U t = universe p d" "elems p t = {}"
    using construct_fresh [OF assms] by blast
  have mn: "min_V t = -1" using invar_min_iff [OF t(2)] t(4) by simp
  have "contains p t x = Some False \<and> successor p t x = Some (-1)"
    if "0 \<le> x" "x < universe p d" for x
    using contains_elems [OF t(2), of x] successor_correct [OF t(2), of x] that t(3,4)
    by (simp add: next_above_def)
  then show ?thesis using t(1) mn by auto
qed

theorem fresh_is_empty_witness:
  "valid_descr Generic 40 \<and>
   (\<exists>t. construct Generic 40 = Some t \<and> min_V t = -1 \<and>
    (\<forall>x. 0 \<le> x \<and> x < universe Generic 40 \<longrightarrow>
       \<not> x < min_V t \<and> contains Generic t x = Some False \<and> successor Generic t x = Some (-1)))"
proof -
  have "isqrt 40 = 6" by code_simp
  then have h: "valid_descr Generic 40" by (simp add: valid_descr_def INT_MAX_def)
  show ?thesis using h fresh_is_empty [OF h] by blast
qed

text \<open>
  Claim C10. After every run of mutations that respects the preconditions, \<^verbatim>\<open>erase\<close>
  of a key of the universe that is not in the reference table returns normally and
  gives back the same tree: every field of every node is as before.
\<close>

theorem erase_absent_unchanged:
  assumes "valid_descr p d" "obeys (universe p d) {} cs" "0 \<le> x" "x < universe p d"
    "x \<notin> reference {} cs"
  shows "\<exists>t. session p d cs = Some t \<and> erase p t x = Some t"
proof -
  obtain t where t: "session p d cs = Some t" "invar p t" "U t = universe p d"
    "elems p t = reference {} cs"
    using session_correct [OF assms(1,2)] by blast
  have "erase p t x = Some t"
    using t(2) assms(3) by (rule erase_absent) (use assms(4,5) t(3,4) in simp_all)
  then show ?thesis using t(1) by simp
qed

theorem erase_absent_unchanged_witness:
  "valid_descr Pow2 5 \<and> obeys (universe Pow2 5) {} [Insert 5, Insert 17, Insert 3, Erase 5] \<and>
   (0::int) \<le> 18 \<and> 18 < universe Pow2 5 \<and>
   18 \<notin> reference {} [Insert 5, Insert 17, Insert 3, Erase 5] \<and>
   (\<exists>t. session Pow2 5 [Insert 5, Insert 17, Insert 3, Erase 5] = Some t \<and>
      erase Pow2 t 18 = Some t)"
proof -
  have h: "valid_descr Pow2 5" "obeys (universe Pow2 5) {} [Insert 5, Insert 17, Insert 3, Erase 5]"
    "(0::int) \<le> 18" "18 < universe Pow2 5"
    "18 \<notin> reference {} [Insert 5, Insert 17, Insert 3, Erase 5]"
    by (simp_all add: valid_descr_def universe_def)
  show ?thesis using h erase_absent_unchanged [OF h] by blast
qed

lemma isqrt_le: "0 \<le> u \<Longrightarrow> u \<le> k * k \<Longrightarrow> 0 \<le> k \<Longrightarrow> isqrt u \<le> k"
proof (rule ccontr)
  assume a: "0 \<le> u" "u \<le> k * k" "0 \<le> k" "\<not> isqrt u \<le> k"
  then have "k + 1 \<le> isqrt u" by simp
  then have "(k + 1) * (k + 1) \<le> isqrt u * isqrt u"
    using a(3) by (intro mult_mono) auto
  moreover have "isqrt u * isqrt u \<le> u" using a(1) by (rule isqrt_sq)
  ultimately show False using a(2,3) by (simp add: algebra_simps)
qed

lemma valid_descr_pow2_generic:
  assumes "valid_descr Pow2 bits"
  shows "valid_descr Generic (universe Pow2 bits)"
proof -
  have b: "0 \<le> bits" "nat bits \<le> 30" using assms by (auto simp: valid_descr_def)
  have "(2::int) ^ nat bits \<le> 2 ^ 30" using b(2) by (intro power_increasing) auto
  then have u: "(2::int) ^ nat bits \<le> 1073741824" by simp
  have "isqrt (2 ^ nat bits) \<le> 32768"
    using u by (intro isqrt_le) auto
  then show ?thesis using u by (simp add: valid_descr_def universe_def INT_MAX_def)
qed

text \<open>
  Claim C9. For every power-of-two universe that both constructors accept without
  overflow, every run of mutations that respects the preconditions, and every key \<open>x\<close>
  of the universe, the generic tree built for the universe size and the power-of-two tree
  built for its number of bits both return normally from \<open>successor x\<close>, with the same
  value.
\<close>

theorem policies_agree:
  assumes "valid_descr Pow2 bits" "obeys (universe Pow2 bits) {} cs" "0 \<le> x"
    "x < universe Pow2 bits"
  shows "\<exists>tg tp r. session Generic (universe Pow2 bits) cs = Some tg \<and>
    session Pow2 bits cs = Some tp \<and>
    successor Generic tg x = Some r \<and> successor Pow2 tp x = Some r"
proof -
  have g: "valid_descr Generic (universe Pow2 bits)"
    using assms(1) by (rule valid_descr_pow2_generic)
  have ug: "universe Generic (universe Pow2 bits) = universe Pow2 bits"
    by (simp add: universe_def)
  obtain tp where tp: "session Pow2 bits cs = Some tp" "invar Pow2 tp"
    "U tp = universe Pow2 bits" "elems Pow2 tp = reference {} cs"
    using session_correct [OF assms(1,2)] by blast
  obtain tg where tg: "session Generic (universe Pow2 bits) cs = Some tg" "invar Generic tg"
    "U tg = universe Pow2 bits" "elems Generic tg = reference {} cs"
    using session_correct [OF g] assms(2) ug by auto
  have "successor Pow2 tp x = Some (next_above (reference {} cs) x)"
    using successor_correct [OF tp(2), of x] assms(3,4) tp(3,4) by simp
  moreover have "successor Generic tg x = Some (next_above (reference {} cs) x)"
    using successor_correct [OF tg(2), of x] assms(3,4) tg(3,4) by simp
  ultimately show ?thesis using tp(1) tg(1) by simp
qed

theorem policies_agree_witness:
  "valid_descr Pow2 5 \<and> obeys (universe Pow2 5) {} [Insert 5, Insert 17, Insert 3, Erase 5] \<and>
   (0::int) \<le> 4 \<and> 4 < universe Pow2 5 \<and>
   (\<exists>tg tp r. session Generic (universe Pow2 5) [Insert 5, Insert 17, Insert 3, Erase 5] = Some tg \<and>
      session Pow2 5 [Insert 5, Insert 17, Insert 3, Erase 5] = Some tp \<and>
      successor Generic tg 4 = Some r \<and> successor Pow2 tp 4 = Some r)"
proof -
  have h: "valid_descr Pow2 5" "obeys (universe Pow2 5) {} [Insert 5, Insert 17, Insert 3, Erase 5]"
    "(0::int) \<le> 4" "4 < universe Pow2 5"
    by (simp_all add: valid_descr_def universe_def)
  show ?thesis using h policies_agree [OF h] by blast
qed

section \<open>Inserting the cached minimum again\<close>

lemma insert_min_changes:
  assumes "invar p t" "min_V t \<noteq> -1"
  shows "\<exists>t'. insert_V p t (min_V t) = Some t' \<and> t' \<noteq> t \<and> min_V t' = min_V t \<and>
    max_V t' = max_V t"
proof -
  obtain u b mn mx sm summ blk where v: "t = V u b mn mx sm summ blk" by (cases t)
  have inv: "invar p (V u b mn mx sm summ blk)" using assms(1) v by simp
  have mn: "mn \<noteq> -1" using assms(2) v by simp
  have mnin: "mn \<in> elems p (V u b mn mx sm summ blk)"
    using invar_nonempty(1) [OF inv] mn by simp
  have x: "0 \<le> mn" "mn < u" using elems_bounds [OF mnin] by simp_all
  have mx: "mn \<le> mx" using invar_nonempty(3) [OF inv _ mnin] invar_nonempty(2) [OF inv] mn
    by (metis V.sel(3,4) invar_nonempty(3) inv)
  have mm: "min mn mn = mn" "max (max mn mn) mx = mx" "max mn mn = mn" "max mn mx = mx"
    using mx by simp_all
  show ?thesis
  proof (cases "u < SMALL")
    case True
    have li: "leaf_inv u (mn, mx, sm)" using inv True by (simp add: invar_leaf)
    have "\<not> bit sm (nat mn)" using li by (fastforce simp: leaf_inv_def)
    moreover have "bit (sm OR push_bit (nat mn) 1) (nat mn)" by (simp add: bit_set_iff')
    ultimately have "sm OR push_bit (nat mn) 1 \<noteq> sm" by metis
    then show ?thesis using x mn True v mm by (simp add: insert_V_leaf)
  next
    case False
    note d = invar_internalD [OF inv False]
    obtain s where s: "summ = Some s" "invar p s" "U s = int (length blk)"
      "elems p s = {i. 0 \<le> i \<and> i < int (length blk) \<and> min_V (blk ! nat i) \<noteq> -1}"
      using d(5) by blast
    define w where "w = width p b"
    define i where "i = mn div w"
    define j where "j = mn mod w"
    have w: "0 < w" using d(2) by (simp add: w_def)
    have ib: "in_block blk i"
      unfolding i_def w_def using x d(3,2) by (rule div_in_block)
    have hi: "high p b mn = i" "low p b mn = j"
      using d(2) x(1) by (simp_all add: high_eq low_eq i_def j_def w_def)
    define c where "c = blk ! nat i"
    have cin: "c \<in> set blk" unfolding c_def using ib by (rule in_block_nth)
    have c: "invar p c" "U c = w" using d(4) [OF cin] by (simp_all add: w_def)
    have j: "0 \<le> j" "j < w" using w by (simp_all add: j_def)
    have nst: "mn \<notin> stored p b blk" using d(8) by blast
    have "mn \<in> stored p b blk \<longleftrightarrow> 0 \<le> mn \<and> mn mod width p b \<in> elems p (blk ! nat i)"
      using ib d(2) by (rule stored_block) (simp add: i_def w_def)
    then have jn: "j \<notin> elems p c" using x(1) nst by (simp add: j_def c_def w_def)
    obtain c' where c': "insert_V p c j = Some c'" "elems p c' = elems p c \<union> {j}"
      using insert_V_correct [OF c(1) j(1) _ jn] j(2) c(2) by auto
    have cne: "c' \<noteq> c" using c'(2) jn by auto
    have "\<exists>summ'. (if min_V c = -1
             then (case summ of None \<Rightarrow> None | Some s \<Rightarrow> map_option Some (insert_V p s i))
             else Some summ) = Some summ'"
    proof (cases "min_V c = -1")
      case True
      then have "i \<notin> elems p s" using s(4) by (simp add: c_def)
      moreover have "0 \<le> i" "i < U s" using ib s(3) by (simp_all add: in_block_def)
      ultimately obtain s' where "insert_V p s i = Some s'"
        using insert_V_correct [OF s(2), of i] by blast
      then show ?thesis using True s(1) by simp
    next
      case False
      then show ?thesis by simp
    qed
    then obtain summ' where summ': "(if min_V c = -1
             then (case summ of None \<Rightarrow> None | Some s \<Rightarrow> map_option Some (insert_V p s i))
             else Some summ) = Some summ'" by blast
    have res: "insert_V p (V u b mn mx sm summ blk) mn =
        Some (V u b mn mx sm summ' (blk[nat i := c']))"
      using x mn False ib summ' c'(1)
      by (simp add: insert_V_internal Let_def mm hi c_def)
    have "(blk[nat i := c']) ! nat i = c'" using in_block_nat [OF ib] by simp
    then have "blk[nat i := c'] \<noteq> blk" using cne by (metis c_def)
    then show ?thesis using res v by simp
  qed
qed

text \<open>
  Claim C6, as the spec states it, fails: \<^verbatim>\<open>V::insert\<close> has no duplicate detection.
  Its only early return is for the empty subtree (\<open>min = -1\<close>). On the universe of 8
  keys holding only the key 3, a second \<open>insert 3\<close> sets bit 3 of \<open>small\<close>.
\<close>

theorem insert_min_counterexample:
  "session Pow2 3 [Insert 3] = Some (V 8 1 3 3 0 None []) \<and>
   min_V (V 8 1 3 3 0 None []) = 3 \<and>
   insert_V Pow2 (V 8 1 3 3 0 None []) 3 = Some (V 8 1 3 3 8 None []) \<and>
   V 8 1 3 3 8 None [] \<noteq> V 8 1 3 3 0 None []"
  by code_simp

text \<open>
  Claim C6, amended. For either policy, after every run of mutations that respects the
  preconditions and leaves the table non-empty, \<open>insert\<close> of the cached minimum returns
  normally with a state different from the one it was given, in which \<open>min\<close> and
  \<open>max\<close> are as before.
\<close>

theorem insert_min_changes_state:
  assumes "valid_descr p d" "obeys (universe p d) {} cs" "reference {} cs \<noteq> {}"
  shows "\<exists>t t'. session p d cs = Some t \<and> min_V t \<noteq> -1 \<and>
    insert_V p t (min_V t) = Some t' \<and> t' \<noteq> t \<and> min_V t' = min_V t \<and> max_V t' = max_V t"
proof -
  obtain t where t: "session p d cs = Some t" "invar p t" "elems p t = reference {} cs"
    using session_correct [OF assms(1,2)] by blast
  have "min_V t \<noteq> -1" using invar_min_iff [OF t(2)] t(3) assms(3) by simp
  then show ?thesis using insert_min_changes [OF t(2)] t(1) by blast
qed

theorem insert_min_changes_state_witness:
  "valid_descr Pow2 5 \<and> obeys (universe Pow2 5) {} [Insert 5, Insert 17] \<and>
   reference {} [Insert 5, Insert 17] \<noteq> {} \<and>
   (\<exists>t t'. session Pow2 5 [Insert 5, Insert 17] = Some t \<and> min_V t \<noteq> -1 \<and>
      insert_V Pow2 t (min_V t) = Some t' \<and> t' \<noteq> t \<and> min_V t' = min_V t \<and>
      max_V t' = max_V t)"
proof -
  have h: "valid_descr Pow2 5" "obeys (universe Pow2 5) {} [Insert 5, Insert 17]"
    "reference {} [Insert 5, Insert 17] \<noteq> {}"
    by (simp_all add: valid_descr_def universe_def)
  show ?thesis using h insert_min_changes_state [OF h] by blast
qed

end
